theory Spec2Isabelle
  imports Main "HOL-Library.Word"
begin

section \<open>Data model of src/api/helpers.c\<close>

text \<open>
  The neutral \<open>Object\<close> of the API layer: a tagged union over the tags
  \<open>kObjectTypeNil\<close> ... \<open>kObjectTypeDictionary\<close> that \<open>object_to_vim\<close> switches on.
  A \<open>String\<close> is a byte buffer with an explicit size (here a \<open>string\<close>, its size the
  length), an \<open>Array\<close> a sequence of objects, a \<open>Dictionary\<close> a sequence of
  \<open>KeyValuePair\<close>s.

  Modelled from the spec: the typedefs \<open>Integer\<close> (api/defs.h) and \<open>varnumber_T\<close>
  (vim.h) are not part of the sources at hand; the specification calls both signed
  integers. They are the type parameters \<open>'i\<close> and \<open>'n\<close> below, instantiated by
  \<open>'a word\<close> and \<open>'b word\<close> in the functions, and every assignment between the two
  is the signed conversion \<open>scast\<close> (sign extension or truncation). The floating
  point payload is only ever copied, so it is the type parameter \<open>'f\<close>.
\<close>

datatype ('i, 'f) Object =
    kObjectTypeNil
  | kObjectTypeBool bool
  | kObjectTypeInt 'i
  | kObjectTypeFloat 'f
  | kObjectTypeString string
  | kObjectTypeArray "('i, 'f) Object list"
  | kObjectTypeDictionary "(string \<times> ('i, 'f) Object) list"

text \<open>
  The host value \<open>typval_T\<close>: the tag \<open>v_type\<close> together with the member of \<open>vval\<close>
  that the tag selects. Pointers are addresses (\<open>nat\<close>), \<open>None\<close> is \<open>NULL\<close>.
  A host string is a NUL-terminated buffer; its payload here is the bytes before
  the terminator, so that \<open>strlen\<close> is \<open>length\<close> and \<open>xstrdup\<close> copies it whole.
  \<open>VAR_OTHER t\<close> is a value with any other tag \<open>t\<close> (a Funcref, for one).
  The field \<open>v_lock\<close> of a \<open>typval_T\<close> is written by \<open>object_to_vim\<close> and read by
  no function of this file; it is left out.
\<close>

datatype ('n, 'f) typval_T =
    VAR_UNKNOWN
  | VAR_NUMBER 'n
  | VAR_STRING "string option"
  | VAR_LIST "nat option"
  | VAR_DICT "nat option"
  | VAR_FLOAT 'f
  | VAR_OTHER nat

text \<open>
  A \<open>list_T\<close> is its reference count and the chain of its items, each item given by
  the address of its \<open>li_tv\<close>; \<open>lv_len\<close> is the length of the chain.
  A \<open>dict_T\<close> is its reference count, its lock and its hash table. The hash table
  is the array \<open>ht_array\<close> of its slots: \<open>None\<close> is a slot for which
  \<open>HASHITEM_EMPTY\<close> holds (never used, or removed), \<open>Some (k, p)\<close> a slot whose
  \<open>dictitem_T\<close> has the key \<open>k\<close> and its \<open>di_tv\<close> at address \<open>p\<close>;
  \<open>ht_used\<close> is the number of such slots.
\<close>

record list_T =
  lv_refcount :: int
  lv_items :: "nat list"

type_synonym hashtab_T = "(string \<times> nat) option list"

record dict_T =
  dv_refcount :: int
  dv_lock :: nat
  dv_hashtab :: hashtab_T

text \<open>
  The memory of the host: the \<open>typval_T\<close> cells, the lists and the dictionaries,
  each indexed by address; \<open>None\<close> at an address is freed memory.
\<close>

record ('n, 'f) heap =
  tvs :: "('n, 'f) typval_T option list"
  lists :: "list_T option list"
  dicts :: "dict_T option list"

definition cell :: "('n, 'f) heap \<Rightarrow> nat \<Rightarrow> ('n, 'f) typval_T option" where
  "cell h p = (if p < length (tvs h) then tvs h ! p else None)"

definition list_at :: "('n, 'f) heap \<Rightarrow> nat \<Rightarrow> list_T option" where
  "list_at h l = (if l < length (lists h) then lists h ! l else None)"

definition dict_at :: "('n, 'f) heap \<Rightarrow> nat \<Rightarrow> dict_T option" where
  "dict_at h d = (if d < length (dicts h) then dicts h ! d else None)"

text \<open>The \<open>Error\<close> of the API: the fields \<open>set\<close> and \<open>msg\<close>.\<close>

record Error =
  err_set :: bool
  err_msg :: string

text \<open>
  Modelled from the spec: the macro \<open>set_api_error\<close> (api/helpers.h) is missing;
  by the specification it sets the Error to the given message.
\<close>

definition set_api_error :: "string \<Rightarrow> Error \<Rightarrow> Error" where
  "set_api_error message err = err\<lparr>err_msg := message, err_set := True\<rparr>"

section \<open>try_start and try_end\<close>

text \<open>
  The globals of the host that \<open>try_end\<close> reads and writes. \<open>msg_list\<close> is a
  pointer to a pointer: \<open>None\<close> when it is \<open>NULL\<close>, \<open>Some None\<close> when it points to
  \<open>NULL\<close>, \<open>Some (Some m)\<close> when it points to a message list.

  Modelled from the spec: \<open>get_exception_string\<close>, \<open>free_global_msglist\<close> and
  \<open>discard_current_exception\<close> are missing. A message list is given by the text
  that \<open>get_exception_string\<close> renders from it; freeing the global message list
  leaves \<open>*msg_list\<close> \<open>NULL\<close>; discarding the current exception releases the
  throw state.
\<close>

record vim_globals =
  trylevel :: int
  did_emsg :: bool
  got_int :: bool
  did_throw :: bool
  msg_list :: "string option option"
  current_exception :: "string option"

definition try_start :: "vim_globals \<Rightarrow> vim_globals" where
  "try_start g = g\<lparr>trylevel := trylevel g + 1\<rparr>"

definition discard_current_exception :: "vim_globals \<Rightarrow> vim_globals" where
  "discard_current_exception g = g\<lparr>did_throw := False, current_exception := None\<rparr>"

definition free_global_msglist :: "vim_globals \<Rightarrow> vim_globals" where
  "free_global_msglist g =
     (case msg_list g of None \<Rightarrow> g | Some _ \<Rightarrow> g\<lparr>msg_list := Some None\<rparr>)"

text \<open>
  \<open>try_end\<close>, with \<open>sizeof_msg\<close> for \<open>sizeof(err->msg)\<close>. The result is \<open>None\<close>
  where the C code dereferences a null \<open>current_exception\<close>.
\<close>

definition try_end ::
  "nat \<Rightarrow> vim_globals \<Rightarrow> Error \<Rightarrow> (bool \<times> vim_globals \<times> Error) option" where
  "try_end sizeof_msg g err =
     (let g1 = g\<lparr>trylevel := trylevel g - 1, did_emsg := False\<rparr> in
      if got_int g1 then
        (let g2 = (if did_throw g1 then discard_current_exception g1 else g1);
             err1 = set_api_error ''Keyboard interrupt'' err
         in Some (err_set err1, g2\<lparr>got_int := False\<rparr>, err1))
      else
        (case msg_list g1 of
           Some (Some m) \<Rightarrow>
             (let err1 = err\<lparr>err_msg := take sizeof_msg m, err_set := True\<rparr>
              in Some (err_set err1, free_global_msglist g1, err1))
         | _ \<Rightarrow>
             if did_throw g1 then
               (case current_exception g1 of
                  None \<Rightarrow> None
                | Some v \<Rightarrow>
                    (let err1 = set_api_error v err in Some (err_set err1, g1, err1)))
             else Some (err_set err, g1, err)))"

section \<open>vim_to_object\<close>

fun is_container :: "('n, 'f) typval_T \<Rightarrow> bool" where
  "is_container (VAR_LIST _) = True"
| "is_container (VAR_DICT _) = True"
| "is_container _ = False"

text \<open>
  \<open>vim_to_object_rec\<close>. The lookup table is the set of the addresses put into it
  (the key of \<open>kh_put\<close> is the pointer \<open>obj\<close> itself, the address of the
  \<open>typval_T\<close>); the function returns the converted value and the table as it left
  it. The two loops are \<open>vim_to_object_list\<close>, over the chain of a list, and
  \<open>vim_to_object_dict\<close>, over the slots of a hash table, where empty slots are
  skipped and \<open>todo\<close> reaches zero after the last used one.

  The recursion of the C function need not end by its form, so the model counts
  the depth of the calls down from its first argument, and \<open>None\<close> says that the
  count ran out, or that the code read through a pointer to nothing (an address
  that is out of range or freed).
\<close>

fun vim_to_object_rec ::
    "nat \<Rightarrow> ('b::len word, 'f) heap \<Rightarrow> nat \<Rightarrow> nat set \<Rightarrow>
      (('a::len word, 'f) Object \<times> nat set) option"
  and vim_to_object_list ::
    "nat \<Rightarrow> ('b::len word, 'f) heap \<Rightarrow> nat list \<Rightarrow> nat set \<Rightarrow>
      (('a::len word, 'f) Object list \<times> nat set) option"
  and vim_to_object_dict ::
    "nat \<Rightarrow> ('b::len word, 'f) heap \<Rightarrow> hashtab_T \<Rightarrow> nat set \<Rightarrow>
      ((string \<times> ('a::len word, 'f) Object) list \<times> nat set) option"
where
  "vim_to_object_rec 0 h obj lookup = None"
| "vim_to_object_rec (Suc n) h obj lookup =
     (case cell h obj of
        None \<Rightarrow> None
      | Some tv \<Rightarrow>
          if is_container tv \<and> obj \<in> lookup then Some (kObjectTypeNil, lookup)
          else
            (let lookup1 = (if is_container tv then insert obj lookup else lookup) in
             case tv of
               VAR_STRING s \<Rightarrow>
                 (case s of
                    None \<Rightarrow> Some (kObjectTypeNil, lookup1)
                  | Some str \<Rightarrow> Some (kObjectTypeString str, lookup1))
             | VAR_NUMBER i \<Rightarrow> Some (kObjectTypeInt (scast i), lookup1)
             | VAR_FLOAT f \<Rightarrow> Some (kObjectTypeFloat f, lookup1)
             | VAR_LIST lp \<Rightarrow>
                 (case lp of
                    None \<Rightarrow> Some (kObjectTypeNil, lookup1)
                  | Some l \<Rightarrow>
                      (case list_at h l of
                         None \<Rightarrow> None
                       | Some L \<Rightarrow>
                           (case vim_to_object_list n h (lv_items L) lookup1 of
                              None \<Rightarrow> None
                            | Some (xs, lk) \<Rightarrow> Some (kObjectTypeArray xs, lk))))
             | VAR_DICT dp \<Rightarrow>
                 (case dp of
                    None \<Rightarrow> Some (kObjectTypeNil, lookup1)
                  | Some d \<Rightarrow>
                      (case dict_at h d of
                         None \<Rightarrow> None
                       | Some D \<Rightarrow>
                           (case vim_to_object_dict n h (dv_hashtab D) lookup1 of
                              None \<Rightarrow> None
                            | Some (kvs, lk) \<Rightarrow> Some (kObjectTypeDictionary kvs, lk))))
             | _ \<Rightarrow> Some (kObjectTypeNil, lookup1)))"
| "vim_to_object_list n h [] lookup = Some ([], lookup)"
| "vim_to_object_list n h (item # items) lookup =
     (case vim_to_object_rec n h item lookup of
        None \<Rightarrow> None
      | Some (x, lk) \<Rightarrow>
          (case vim_to_object_list n h items lk of
             None \<Rightarrow> None
           | Some (xs, lk') \<Rightarrow> Some (x # xs, lk')))"
| "vim_to_object_dict n h [] lookup = Some ([], lookup)"
| "vim_to_object_dict n h (None # his) lookup = vim_to_object_dict n h his lookup"
| "vim_to_object_dict n h (Some (key, di) # his) lookup =
     (case vim_to_object_rec n h di lookup of
        None \<Rightarrow> None
      | Some (x, lk) \<Rightarrow>
          (case vim_to_object_dict n h his lk of
             None \<Rightarrow> None
           | Some (kvs, lk') \<Rightarrow> Some ((key, x) # kvs, lk')))"

text \<open>
  \<open>vim_to_object\<close>: a fresh lookup table, the conversion, the table destroyed.
  The depth allowed is one more than the number of \<open>typval_T\<close> cells of the heap,
  which the recursion cannot exceed (\<open>vim_to_object_rec_total\<close> below).
\<close>

definition vim_to_object ::
  "('b::len word, 'f) heap \<Rightarrow> nat \<Rightarrow> ('a::len word, 'f) Object option" where
  "vim_to_object h obj =
     map_option fst (vim_to_object_rec (Suc (length (tvs h))) h obj {})"

text \<open>
  A heap without pointers to nothing: every list or dictionary that a live cell
  points to is live, and so is every cell that a live list or dictionary holds.
\<close>

definition tv_valid :: "('n, 'f) heap \<Rightarrow> ('n, 'f) typval_T \<Rightarrow> bool" where
  "tv_valid h tv =
     (case tv of
        VAR_LIST (Some l) \<Rightarrow> list_at h l \<noteq> None
      | VAR_DICT (Some d) \<Rightarrow> dict_at h d \<noteq> None
      | _ \<Rightarrow> True)"

definition heap_valid :: "('n, 'f) heap \<Rightarrow> bool" where
  "heap_valid h =
     (list_all (case_option True (tv_valid h)) (tvs h) \<and>
      list_all (case_option True (\<lambda>L. list_all (\<lambda>p. cell h p \<noteq> None) (lv_items L)))
        (lists h) \<and>
      list_all (case_option True (\<lambda>D.
          list_all (case_option True (\<lambda>(k, p). cell h p \<noteq> None)) (dv_hashtab D)))
        (dicts h))"

section \<open>The host's memory primitives\<close>

text \<open>
  Modelled from the spec: the allocator and the container primitives of the host
  (eval.c, memory.c, hashtab.c) are missing; the specification lists them as
  list allocate, append and free, dict allocate, add-entry and free (each free
  with the option to free what the container holds as well), and the increment
  and decrement of a reference count, a container being freed only when its
  count reaches zero. An allocation returns an address that was never used
  (the next index); a new container has the count zero; freeing puts \<open>None\<close> at
  the address. The functions that append an item, add or remove an entry or
  count a reference are total functions: the functions of helpers.c call them on a
  container that they have just allocated or on the dictionary that they were
  given, which is live at the call, and on an address that holds no container
  they leave the heap as it is.
\<close>

definition cstr :: "string \<Rightarrow> string" where
  "cstr s = takeWhile (\<lambda>c. c \<noteq> CHR 0x00) s"

definition set_tv :: "nat \<Rightarrow> ('n, 'f) typval_T \<Rightarrow> ('n, 'f) heap \<Rightarrow> ('n, 'f) heap" where
  "set_tv p tv h = h\<lparr>tvs := (tvs h)[p := Some tv]\<rparr>"

definition list_alloc :: "('n, 'f) heap \<Rightarrow> nat \<times> ('n, 'f) heap" where
  "list_alloc h =
     (length (lists h), h\<lparr>lists := lists h @ [Some \<lparr>lv_refcount = 0, lv_items = []\<rparr>]\<rparr>)"

definition listitem_alloc :: "('n, 'f) heap \<Rightarrow> nat \<times> ('n, 'f) heap" where
  "listitem_alloc h = (length (tvs h), h\<lparr>tvs := tvs h @ [Some VAR_UNKNOWN]\<rparr>)"

definition list_append :: "nat \<Rightarrow> nat \<Rightarrow> ('n, 'f) heap \<Rightarrow> ('n, 'f) heap" where
  "list_append l li h =
     (case list_at h l of
        None \<Rightarrow> h
      | Some L \<Rightarrow> h\<lparr>lists := (lists h)[l := Some (L\<lparr>lv_items := lv_items L @ [li]\<rparr>)]\<rparr>)"

definition list_ref :: "nat \<Rightarrow> ('n, 'f) heap \<Rightarrow> ('n, 'f) heap" where
  "list_ref l h =
     (case list_at h l of
        None \<Rightarrow> h
      | Some L \<Rightarrow> h\<lparr>lists := (lists h)[l := Some (L\<lparr>lv_refcount := lv_refcount L + 1\<rparr>)]\<rparr>)"

definition dict_alloc :: "('n, 'f) heap \<Rightarrow> nat \<times> ('n, 'f) heap" where
  "dict_alloc h =
     (length (dicts h),
      h\<lparr>dicts := dicts h @ [Some \<lparr>dv_refcount = 0, dv_lock = 0, dv_hashtab = []\<rparr>]\<rparr>)"

text \<open>
  A \<open>dictitem_T\<close> is its key, a C string, and the address of its \<open>di_tv\<close>.
\<close>

definition dictitem_alloc :: "string \<Rightarrow> ('n, 'f) heap \<Rightarrow> (string \<times> nat) \<times> ('n, 'f) heap" where
  "dictitem_alloc k h = ((k, length (tvs h)), h\<lparr>tvs := tvs h @ [Some VAR_UNKNOWN]\<rparr>)"

text \<open>
  Modelled from the spec: the hash table (hashtab.c) is missing, and the
  specification leaves its enumeration order open. Where a new entry comes to
  stand among the slots is the parameter \<open>hpos\<close>, a function of the new key and
  of the keys in the slots; every such function is a possible hash table.
  \<open>hash_find\<close> gives the slot of a key and the \<open>di_tv\<close> of its item, \<open>None\<close>
  for the empty slot that the C function returns for an absent key.
\<close>

definition hash_add ::
  "(string \<Rightarrow> string option list \<Rightarrow> nat) \<Rightarrow> hashtab_T \<Rightarrow> string \<times> nat \<Rightarrow> hashtab_T" where
  "hash_add hpos ht di =
     (let i = min (hpos (fst di) (map (map_option fst) ht)) (length ht)
      in take i ht @ Some di # drop i ht)"

fun hash_find :: "hashtab_T \<Rightarrow> string \<Rightarrow> (nat \<times> nat) option" where
  "hash_find [] k = None"
| "hash_find (None # his) k = map_option (\<lambda>(i, p). (Suc i, p)) (hash_find his k)"
| "hash_find (Some (k', p) # his) k =
     (if k' = k then Some (0, p) else map_option (\<lambda>(i, p). (Suc i, p)) (hash_find his k))"

definition hash_remove :: "nat \<Rightarrow> nat \<Rightarrow> ('n, 'f) heap \<Rightarrow> ('n, 'f) heap" where
  "hash_remove d i h =
     (case dict_at h d of
        None \<Rightarrow> h
      | Some D \<Rightarrow> h\<lparr>dicts := (dicts h)[d := Some (D\<lparr>dv_hashtab := (dv_hashtab D)[i := None]\<rparr>)]\<rparr>)"

definition dict_find :: "dict_T \<Rightarrow> string \<Rightarrow> nat option" where
  "dict_find D key = map_option snd (hash_find (dv_hashtab D) (cstr key))"

definition dict_add ::
  "(string \<Rightarrow> string option list \<Rightarrow> nat) \<Rightarrow> nat \<Rightarrow> string \<times> nat \<Rightarrow> ('n, 'f) heap \<Rightarrow>
     ('n, 'f) heap" where
  "dict_add hpos d di h =
     (case dict_at h d of
        None \<Rightarrow> h
      | Some D \<Rightarrow>
          h\<lparr>dicts := (dicts h)[d := Some (D\<lparr>dv_hashtab := hash_add hpos (dv_hashtab D) di\<rparr>)]\<rparr>)"

definition dict_ref :: "nat \<Rightarrow> ('n, 'f) heap \<Rightarrow> ('n, 'f) heap" where
  "dict_ref d h =
     (case dict_at h d of
        None \<Rightarrow> h
      | Some D \<Rightarrow> h\<lparr>dicts := (dicts h)[d := Some (D\<lparr>dv_refcount := dv_refcount D + 1\<rparr>)]\<rparr>)"

text \<open>
  Modelled from the spec: releasing. A reference is to a list or to a
  dictionary; \<open>unref_all\<close> takes the references of its work list one by one and
  decrements the count of each container. A container whose count reaches zero
  is freed together with its items, and what the items referred to joins the
  work list. The host reads the count through the pointer it is given: a
  reference to a container that is already freed, or a container that holds an
  item that is already freed, is a read of freed memory, the behaviour of the
  program is undefined from there on, and the result is \<open>None\<close>.
\<close>

datatype ref = ListRef nat | DictRef nat

fun tv_refs :: "('n, 'f) typval_T \<Rightarrow> ref list" where
  "tv_refs (VAR_LIST (Some l)) = [ListRef l]"
| "tv_refs (VAR_DICT (Some d)) = [DictRef d]"
| "tv_refs _ = []"

definition cell_refs :: "('n, 'f) heap \<Rightarrow> nat \<Rightarrow> ref list" where
  "cell_refs h p = (case cell h p of None \<Rightarrow> [] | Some tv \<Rightarrow> tv_refs tv)"

definition items_live :: "('n, 'f) heap \<Rightarrow> nat list \<Rightarrow> bool" where
  "items_live h ps = list_all (\<lambda>p. cell h p \<noteq> None) ps"

definition free_cells :: "nat list \<Rightarrow> ('n, 'f) heap \<Rightarrow> ('n, 'f) heap" where
  "free_cells ps h = h\<lparr>tvs := fold (\<lambda>p xs. xs[p := None]) ps (tvs h)\<rparr>"

definition ht_cells :: "hashtab_T \<Rightarrow> nat list" where
  "ht_cells ht = map snd (List.map_filter id ht)"

definition live_count :: "'x option list \<Rightarrow> nat" where
  "live_count xs = length (filter (\<lambda>x. x \<noteq> None) xs)"

function unref_all :: "ref list \<Rightarrow> ('n, 'f) heap \<Rightarrow> ('n, 'f) heap option" where
  "unref_all [] h = Some h"
| "unref_all (ListRef l # rs) h =
     (case list_at h l of
        None \<Rightarrow> None
      | Some L \<Rightarrow>
          if lv_refcount L - 1 \<le> 0 then
            if items_live h (lv_items L) then
              unref_all (concat (map (cell_refs h) (lv_items L)) @ rs)
                (free_cells (lv_items L) (h\<lparr>lists := (lists h)[l := None]\<rparr>))
            else None
          else
            unref_all rs
              (h\<lparr>lists := (lists h)[l := Some (L\<lparr>lv_refcount := lv_refcount L - 1\<rparr>)]\<rparr>))"
| "unref_all (DictRef d # rs) h =
     (case dict_at h d of
        None \<Rightarrow> None
      | Some D \<Rightarrow>
          if dv_refcount D - 1 \<le> 0 then
            if items_live h (ht_cells (dv_hashtab D)) then
              unref_all (concat (map (cell_refs h) (ht_cells (dv_hashtab D))) @ rs)
                (free_cells (ht_cells (dv_hashtab D)) (h\<lparr>dicts := (dicts h)[d := None]\<rparr>))
            else None
          else
            unref_all rs
              (h\<lparr>dicts := (dicts h)[d := Some (D\<lparr>dv_refcount := dv_refcount D - 1\<rparr>)]\<rparr>))"
  by pat_completeness auto
termination
proof -
  have free: "live_count (xs[i := None]) < live_count xs"
    if "i < length xs" "xs ! i = Some v" for xs :: "'x option list" and i v
    using that
  proof (induction xs arbitrary: i)
    case Nil
    then show ?case by simp
  next
    case (Cons x xs)
    then show ?case
      by (cases i) (auto simp: live_count_def)
  qed
  have keep: "live_count (xs[i := Some w]) = live_count xs"
    if "i < length xs" "xs ! i = Some v" for xs :: "'x option list" and i v w
    using that
  proof (induction xs arbitrary: i)
    case Nil
    then show ?case by simp
  next
    case (Cons x xs)
    then show ?case
      by (cases i) (auto simp: live_count_def)
  qed
  show ?thesis
  proof (relation "measures [\<lambda>(rs, h). live_count (lists h) + live_count (dicts h),
                             \<lambda>(rs, h). length rs]", goal_cases)
    case 1
    then show ?case by simp
  next
    case (2 l rs h L)
    then show ?case
      by (auto simp: list_at_def free_cells_def split: if_splits dest: free)
  next
    case (3 l rs h L)
    then show ?case
      by (auto simp: list_at_def split: if_splits dest: keep)
  next
    case (4 d rs h D)
    then show ?case
      by (auto simp: dict_at_def free_cells_def split: if_splits dest: free)
  next
    case (5 d rs h D)
    then show ?case
      by (auto simp: dict_at_def split: if_splits dest: keep)
  qed
qed

text \<open>
  Modelled from the spec: \<open>clear_tv\<close> releases what a cell refers to;
  \<open>listitem_free\<close> and \<open>dictitem_free\<close> release the value of an item and free the
  item; \<open>list_free\<close> and \<open>dict_free\<close> free a container and its items whatever its
  count, and with \<open>recurse\<close> release what the items referred to; \<open>copy_tv\<close>
  copies a value into another cell, which is a new reference to the container
  it names. Each of the releasing functions reads through the pointer it is
  given, so on a cell or a container that is already freed the result is
  \<open>None\<close>, as for \<open>unref_all\<close>.
\<close>

definition clear_tv :: "nat \<Rightarrow> ('n, 'f) heap \<Rightarrow> ('n, 'f) heap option" where
  "clear_tv p h = (case cell h p of None \<Rightarrow> None | Some tv \<Rightarrow> unref_all (tv_refs tv) h)"

definition listitem_free :: "nat \<Rightarrow> ('n, 'f) heap \<Rightarrow> ('n, 'f) heap option" where
  "listitem_free li h = map_option (free_cells [li]) (clear_tv li h)"

definition dictitem_free :: "nat \<Rightarrow> ('n, 'f) heap \<Rightarrow> ('n, 'f) heap option" where
  "dictitem_free di h = map_option (free_cells [di]) (clear_tv di h)"

definition list_free :: "nat \<Rightarrow> bool \<Rightarrow> ('n, 'f) heap \<Rightarrow> ('n, 'f) heap option" where
  "list_free l recurse h =
     (case list_at h l of
        None \<Rightarrow> None
      | Some L \<Rightarrow>
          if items_live h (lv_items L) then
            (let h1 = free_cells (lv_items L) (h\<lparr>lists := (lists h)[l := None]\<rparr>)
             in if recurse then unref_all (concat (map (cell_refs h) (lv_items L))) h1
                else Some h1)
          else None)"

definition dict_free :: "nat \<Rightarrow> bool \<Rightarrow> ('n, 'f) heap \<Rightarrow> ('n, 'f) heap option" where
  "dict_free d recurse h =
     (case dict_at h d of
        None \<Rightarrow> None
      | Some D \<Rightarrow>
          if items_live h (ht_cells (dv_hashtab D)) then
            (let h1 = free_cells (ht_cells (dv_hashtab D)) (h\<lparr>dicts := (dicts h)[d := None]\<rparr>)
             in if recurse then
                  unref_all (concat (map (cell_refs h) (ht_cells (dv_hashtab D)))) h1
                else Some h1)
          else None)"

fun ref_all :: "ref list \<Rightarrow> ('n, 'f) heap \<Rightarrow> ('n, 'f) heap" where
  "ref_all [] h = h"
| "ref_all (ListRef l # rs) h = ref_all rs (list_ref l h)"
| "ref_all (DictRef d # rs) h = ref_all rs (dict_ref d h)"

definition copy_tv :: "nat \<Rightarrow> nat \<Rightarrow> ('n, 'f) heap \<Rightarrow> ('n, 'f) heap" where
  "copy_tv from to h =
     (case cell h from of
        None \<Rightarrow> h
      | Some tv \<Rightarrow> ref_all (tv_refs tv) (set_tv to tv h))"

section \<open>object_to_vim\<close>

text \<open>
  \<open>object_to_vim\<close> writes through the pointer \<open>tv\<close> and returns whether it
  succeeded, with the heap and the Error as it left them; the result is \<open>None\<close>
  where one of the releasing functions it calls has read freed memory. The tag
  \<open>VAR_UNKNOWN\<close> that it writes first is overwritten in every case of the switch.
  Its two loops are \<open>object_to_vim_array\<close> and \<open>object_to_vim_dictionary\<close>; they
  are given the container that \<open>tv\<close> points to, which the loops read back from
  \<open>tv\<close> at every use. The key buffer \<open>k\<close> is the key followed by NUL, read by
  \<open>dictitem_alloc\<close> as a C string.

  On a failure in a loop the function frees what it built and returns false, and
  it leaves \<open>tv\<close> as it is: the tag and the pointer to the container that was just
  freed stay in \<open>tv\<close>. The caller's cleanup, \<open>listitem_free\<close> or \<open>dictitem_free\<close> of
  the item that holds \<open>tv\<close>, releases what \<open>tv\<close> points to.
\<close>

fun object_to_vim ::
    "(string \<Rightarrow> string option list \<Rightarrow> nat) \<Rightarrow> ('a::len word, 'f) Object \<Rightarrow> nat \<Rightarrow>
       ('b::len word, 'f) heap \<Rightarrow> Error \<Rightarrow> (bool \<times> ('b word, 'f) heap \<times> Error) option"
  and object_to_vim_array ::
    "(string \<Rightarrow> string option list \<Rightarrow> nat) \<Rightarrow> ('a::len word, 'f) Object list \<Rightarrow> nat \<Rightarrow>
       ('b::len word, 'f) heap \<Rightarrow> Error \<Rightarrow> (bool \<times> ('b word, 'f) heap \<times> Error) option"
  and object_to_vim_dictionary ::
    "(string \<Rightarrow> string option list \<Rightarrow> nat) \<Rightarrow> (string \<times> ('a::len word, 'f) Object) list \<Rightarrow>
       nat \<Rightarrow> ('b::len word, 'f) heap \<Rightarrow> Error \<Rightarrow> (bool \<times> ('b word, 'f) heap \<times> Error) option"
where
  "object_to_vim hpos kObjectTypeNil tv h err = Some (True, set_tv tv (VAR_NUMBER 0) h, err)"
| "object_to_vim hpos (kObjectTypeBool b) tv h err =
     Some (True, set_tv tv (VAR_NUMBER (of_bool b)) h, err)"
| "object_to_vim hpos (kObjectTypeInt i) tv h err =
     Some (True, set_tv tv (VAR_NUMBER (scast i)) h, err)"
| "object_to_vim hpos (kObjectTypeFloat f) tv h err =
     Some (True, set_tv tv (VAR_FLOAT f) h, err)"
| "object_to_vim hpos (kObjectTypeString s) tv h err =
     Some (True, set_tv tv (VAR_STRING (Some (cstr s))) h, err)"
| "object_to_vim hpos (kObjectTypeArray items) tv h err =
     (case list_alloc h of
        (l, h1) \<Rightarrow>
          (case object_to_vim_array hpos items l (set_tv tv (VAR_LIST (Some l)) h1) err of
             None \<Rightarrow> None
           | Some (False, h2, err2) \<Rightarrow> Some (False, h2, err2)
           | Some (True, h2, err2) \<Rightarrow> Some (True, list_ref l h2, err2)))"
| "object_to_vim hpos (kObjectTypeDictionary items) tv h err =
     (case dict_alloc h of
        (d, h1) \<Rightarrow>
          (case object_to_vim_dictionary hpos items d (set_tv tv (VAR_DICT (Some d)) h1) err of
             None \<Rightarrow> None
           | Some (False, h2, err2) \<Rightarrow> Some (False, h2, err2)
           | Some (True, h2, err2) \<Rightarrow> Some (True, dict_ref d h2, err2)))"
| "object_to_vim_array hpos [] l h err = Some (True, h, err)"
| "object_to_vim_array hpos (item # items) l h err =
     (case listitem_alloc h of
        (li, h1) \<Rightarrow>
          (case object_to_vim hpos item li h1 err of
             None \<Rightarrow> None
           | Some (False, h2, err2) \<Rightarrow>
               (case listitem_free li h2 of
                  None \<Rightarrow> None
                | Some h3 \<Rightarrow>
                    (case list_free l True h3 of
                       None \<Rightarrow> None
                     | Some h4 \<Rightarrow> Some (False, h4, err2)))
           | Some (True, h2, err2) \<Rightarrow>
               object_to_vim_array hpos items l (list_append l li h2) err2))"
| "object_to_vim_dictionary hpos [] d h err = Some (True, h, err)"
| "object_to_vim_dictionary hpos ((key, val) # items) d h err =
     (if length key = 0 then
        (case dict_free d True h of
           None \<Rightarrow> None
         | Some h1 \<Rightarrow>
             Some (False, h1, set_api_error ''Empty dictionary keys aren't allowed'' err))
      else
        (case dictitem_alloc (cstr key) h of
           (di, h1) \<Rightarrow>
             (case object_to_vim hpos val (snd di) h1 err of
                None \<Rightarrow> None
              | Some (False, h2, err2) \<Rightarrow>
                  (case dictitem_free (snd di) h2 of
                     None \<Rightarrow> None
                   | Some h3 \<Rightarrow>
                       (case dict_free d True h3 of
                          None \<Rightarrow> None
                        | Some h4 \<Rightarrow> Some (False, h4, err2)))
              | Some (True, h2, err2) \<Rightarrow>
                  object_to_vim_dictionary hpos items d (dict_add hpos d di h2) err2)))"

section \<open>dict_get_value and dict_set_value\<close>

text \<open>
  The local variable \<open>rv\<close> of \<open>dict_get_value\<close> is declared without an
  initialiser: it is \<open>Uninitialized\<close> until the function assigns to it.
  \<open>dict_get_value\<close> returns \<open>rv\<close>, the heap and the Error; the result is \<open>None\<close>
  where \<open>dict\<close> points to nothing, the conversion has no result, or the release
  of the entry reads freed memory.
\<close>

datatype 'o local_var = Uninitialized | Assigned 'o

definition dict_get_value ::
  "('b::len word, 'f) heap \<Rightarrow> nat \<Rightarrow> string \<Rightarrow> bool \<Rightarrow> Error \<Rightarrow>
     (('a::len word, 'f) Object local_var \<times> ('b word, 'f) heap \<times> Error) option" where
  "dict_get_value h dict key pop err =
     (case dict_at h dict of
        None \<Rightarrow> None
      | Some D \<Rightarrow>
          (case hash_find (dv_hashtab D) (cstr key) of
             None \<Rightarrow> Some (Uninitialized, h, set_api_error ''Key not found'' err)
           | Some (hi, di) \<Rightarrow>
               (case vim_to_object h di of
                  None \<Rightarrow> None
                | Some rv \<Rightarrow>
                    if pop then
                      if dv_lock D \<noteq> 0 then
                        Some (Assigned rv, h, set_api_error ''Dictionary is locked'' err)
                      else
                        (case dictitem_free di (hash_remove dict hi h) of
                           None \<Rightarrow> None
                         | Some h1 \<Rightarrow> Some (Assigned rv, h1, err))
                    else Some (Assigned rv, h, err))))"

text \<open>
  \<open>dict_set_value\<close>. Its local \<open>typval_T tv\<close> is a cell of its own, taken on
  entry to the conversion and given back on return. When \<open>object_to_vim\<close> fails
  the function returns at once and does not look at \<open>tv\<close> again.
\<close>

definition dict_set_value ::
  "(string \<Rightarrow> string option list \<Rightarrow> nat) \<Rightarrow> ('b::len word, 'f) heap \<Rightarrow> nat \<Rightarrow> string \<Rightarrow>
     ('a::len word, 'f) Object \<Rightarrow> Error \<Rightarrow>
     (('a word, 'f) Object \<times> ('b word, 'f) heap \<times> Error) option" where
  "dict_set_value hpos h dict key val err =
     (case dict_at h dict of
        None \<Rightarrow> None
      | Some D \<Rightarrow>
          if dv_lock D \<noteq> 0 then
            Some (kObjectTypeNil, h, set_api_error ''Dictionary is locked'' err)
          else if length key = 0 then
            Some (kObjectTypeNil, h,
                  set_api_error ''Empty dictionary keys aren't allowed'' err)
          else
            (case listitem_alloc h of
               (tv, h1) \<Rightarrow>
                 (case object_to_vim hpos val tv h1 err of
                    None \<Rightarrow> None
                  | Some (False, h2, err2) \<Rightarrow> Some (kObjectTypeNil, free_cells [tv] h2, err2)
                  | Some (True, h2, err2) \<Rightarrow>
                      (case dict_find D key of
                         None \<Rightarrow>
                           (case dictitem_alloc (cstr key) h2 of
                              (di, h3) \<Rightarrow>
                                (case clear_tv tv
                                        (copy_tv tv (snd di) (dict_add hpos dict di h3)) of
                                   None \<Rightarrow> None
                                 | Some h4 \<Rightarrow> Some (kObjectTypeNil, free_cells [tv] h4, err2)))
                       | Some di \<Rightarrow>
                           (case vim_to_object h2 di of
                              None \<Rightarrow> None
                            | Some rv \<Rightarrow>
                                (case clear_tv di h2 of
                                   None \<Rightarrow> None
                                 | Some h3 \<Rightarrow>
                                     (case clear_tv tv (copy_tv tv di h3) of
                                        None \<Rightarrow> None
                                      | Some h4 \<Rightarrow> Some (rv, free_cells [tv] h4, err2))))))))"

section \<open>Notions used in the statements\<close>

text \<open>
  The number of cells that the lookup table does not hold yet: the measure by which
  the recursion of \<open>vim_to_object_rec\<close> ends.
\<close>

definition unvisited :: "('n, 'f) heap \<Rightarrow> nat set \<Rightarrow> nat" where
  "unvisited h lookup = card ({..<length (tvs h)} - lookup)"

text \<open>The tags that \<open>vim_to_object_rec\<close> has a case for.\<close>

fun supported_tag :: "('n, 'f) typval_T \<Rightarrow> bool" where
  "supported_tag (VAR_STRING _) = True"
| "supported_tag (VAR_NUMBER _) = True"
| "supported_tag (VAR_FLOAT _) = True"
| "supported_tag (VAR_LIST _) = True"
| "supported_tag (VAR_DICT _) = True"
| "supported_tag _ = False"

text \<open>Heaps for the examples: a Funcref and an unknown value; a list that holds itself,
  and a variable for it; a locked dictionary with one entry.\<close>

definition funcref_heap :: "(32 word, nat) heap" where
  "funcref_heap = \<lparr>tvs = [Some (VAR_OTHER 3), Some VAR_UNKNOWN], lists = [], dicts = []\<rparr>"

definition cyclic_heap :: "(32 word, nat) heap" where
  "cyclic_heap =
     \<lparr>tvs = [Some (VAR_LIST (Some 0)), Some (VAR_LIST (Some 0))],
      lists = [Some \<lparr>lv_refcount = 2, lv_items = [1]\<rparr>],
      dicts = []\<rparr>"

definition dict_heap :: "(32 word, nat) heap" where
  "dict_heap =
     \<lparr>tvs = [Some (VAR_DICT (Some 0)), Some (VAR_NUMBER 7)],
      lists = [],
      dicts = [Some \<lparr>dv_refcount = 1, dv_lock = 1, dv_hashtab = [None, Some (''k'', 1)]\<rparr>]\<rparr>"

section \<open>Notions for the proofs about the heap\<close>

text \<open>
  An address of the heap, with the kind of the thing it is the address of; a set of
  addresses is a region. \<open>clear\<close> frees a region, \<open>agree\<close> says that two heaps
  hold the same at every address of a region, \<open>old\<close> is the region a heap has
  allocated so far, and \<open>new h h'\<close> the region allocated on the way from \<open>h\<close>
  to \<open>h'\<close>.
\<close>

datatype addr = TvA nat | ListA nat | DictA nat

definition clr :: "nat set \<Rightarrow> 'x option list \<Rightarrow> 'x option list" where
  "clr S xs = map (\<lambda>i. if i \<in> S then None else xs ! i) [0..<length xs]"

definition clear :: "addr set \<Rightarrow> ('n, 'f) heap \<Rightarrow> ('n, 'f) heap" where
  "clear R h =
     h\<lparr>tvs := clr {i. TvA i \<in> R} (tvs h),
       lists := clr {i. ListA i \<in> R} (lists h),
       dicts := clr {i. DictA i \<in> R} (dicts h)\<rparr>"

definition agree :: "addr set \<Rightarrow> ('n, 'f) heap \<Rightarrow> ('n, 'f) heap \<Rightarrow> bool" where
  "agree R h h' =
     ((\<forall>i. TvA i \<in> R \<longrightarrow> cell h' i = cell h i) \<and>
      (\<forall>i. ListA i \<in> R \<longrightarrow> list_at h' i = list_at h i) \<and>
      (\<forall>i. DictA i \<in> R \<longrightarrow> dict_at h' i = dict_at h i))"

definition old :: "('n, 'f) heap \<Rightarrow> addr set" where
  "old h = TvA ` {..<length (tvs h)} \<union> ListA ` {..<length (lists h)} \<union>
           DictA ` {..<length (dicts h)}"

definition new :: "('n, 'f) heap \<Rightarrow> ('n, 'f) heap \<Rightarrow> addr set" where
  "new h h' = TvA ` {length (tvs h)..<length (tvs h')} \<union>
              ListA ` {length (lists h)..<length (lists h')} \<union>
              DictA ` {length (dicts h)..<length (dicts h')}"

definition le_heap :: "('n, 'f) heap \<Rightarrow> ('n, 'f) heap \<Rightarrow> bool" where
  "le_heap h h' =
     (length (tvs h) \<le> length (tvs h') \<and> length (lists h) \<le> length (lists h') \<and>
      length (dicts h) \<le> length (dicts h'))"

text \<open>
  Structural equality of two Values: scalars are equal, arrays have the same
  length and equal elements in the same order, dictionaries have as many pairs
  and every pair of one has a pair of the other with the same key and an equal
  value, whatever the order of the pairs.
\<close>

fun obj_eq :: "('i, 'f) Object \<Rightarrow> ('i, 'f) Object \<Rightarrow> bool" where
  "obj_eq (kObjectTypeArray xs) y =
     (case y of kObjectTypeArray ys \<Rightarrow> list_all2 obj_eq xs ys | _ \<Rightarrow> False)"
| "obj_eq (kObjectTypeDictionary xs) y =
     (case y of
        kObjectTypeDictionary ys \<Rightarrow>
          length xs = length ys \<and>
          (\<forall>(k, v) \<in> set xs. \<exists>(k', v') \<in> set ys. k' = k \<and> obj_eq v v') \<and>
          (\<forall>(k', v') \<in> set ys. \<exists>(k, v) \<in> set xs. k' = k \<and> obj_eq v v')
      | _ \<Rightarrow> False)"
| "obj_eq x y = (x = y)"

text \<open>The nesting depth of a Value: the depth of the calls that convert it.\<close>

fun depth :: "('i, 'f) Object \<Rightarrow> nat" where
  "depth (kObjectTypeArray xs) = Suc (Max (set (0 # map depth xs)))"
| "depth (kObjectTypeDictionary kvs) = Suc (Max (set (0 # map (\<lambda>(k, v). depth v) kvs)))"
| "depth _ = Suc 0"

text \<open>A Value with a dictionary, at any depth, that has a pair with an empty key.\<close>

fun has_empty_key :: "('i, 'f) Object \<Rightarrow> bool" where
  "has_empty_key (kObjectTypeArray xs) = (\<exists>x \<in> set xs. has_empty_key x)"
| "has_empty_key (kObjectTypeDictionary kvs) =
     (\<exists>(k, v) \<in> set kvs. k = [] \<or> has_empty_key v)"
| "has_empty_key _ = False"

text \<open>
  The Values that the round trip gives back. \<open>fits bits i\<close>: the Integer \<open>i\<close> is
  in the range of a signed number of \<open>bits\<close> bits, the width of the host number.
  \<open>rt_ok\<close>: no Nil and no Bool (the host has numbers only), Integers that fit,
  no NUL byte in a String or a key (the host strings are C strings), and in every
  dictionary keys that are not empty and are unique, as the data model of the
  specification asks.
\<close>

definition fits :: "nat \<Rightarrow> 'a::len word \<Rightarrow> bool" where
  "fits bits i = (- (2 ^ (bits - 1)) \<le> sint i \<and> sint i < 2 ^ (bits - 1))"

fun rt_ok :: "nat \<Rightarrow> ('a::len word, 'f) Object \<Rightarrow> bool" where
  "rt_ok bits kObjectTypeNil = False"
| "rt_ok bits (kObjectTypeBool b) = False"
| "rt_ok bits (kObjectTypeInt i) = fits bits i"
| "rt_ok bits (kObjectTypeFloat f) = True"
| "rt_ok bits (kObjectTypeString s) = (CHR 0x00 \<notin> set s)"
| "rt_ok bits (kObjectTypeArray xs) = (\<forall>x \<in> set xs. rt_ok bits x)"
| "rt_ok bits (kObjectTypeDictionary kvs) =
     (distinct (map fst kvs) \<and>
      (\<forall>(k, v) \<in> set kvs. k \<noteq> [] \<and> CHR 0x00 \<notin> set k \<and> rt_ok bits v))"

text \<open>
  \<open>converts h q x R\<close>: in every heap that agrees with \<open>h\<close> on the cell \<open>q\<close> and
  the region \<open>R\<close>, with a lookup table that holds none of these cells and with
  depth enough, \<open>vim_to_object_rec\<close> converts the cell \<open>q\<close> to a Value equal to
  \<open>x\<close> and adds only these cells to the table, provided \<open>x\<close> is one of the Values
  that the round trip gives back. An item is a cell, the Value it was built from
  and the region built for it.
\<close>

definition cells :: "addr set \<Rightarrow> nat set" where
  "cells R = {i. TvA i \<in> R}"

definition converts ::
  "('b::len word, 'f) heap \<Rightarrow> nat \<Rightarrow> ('a::len word, 'f) Object \<Rightarrow> addr set \<Rightarrow> bool" where
  "converts h q x R =
     (rt_ok LENGTH('b) x \<longrightarrow>
      (\<forall>h2 L n. agree (insert (TvA q) R) h h2 \<longrightarrow> L \<inter> insert q (cells R) = {} \<longrightarrow>
         depth x \<le> n \<longrightarrow>
         (\<exists>v' L'. vim_to_object_rec n h2 q L = Some (v', L') \<and> obj_eq x v' \<and>
            L \<subseteq> L' \<and> L' \<subseteq> L \<union> insert q (cells R))))"

type_synonym ('i, 'f) item = "nat \<times> ('i, 'f) Object \<times> addr set"

definition footprint :: "('i, 'f) item \<Rightarrow> addr set" where
  "footprint t = insert (TvA (fst t)) (snd (snd t))"

definition live :: "hashtab_T \<Rightarrow> (string \<times> nat) list" where
  "live ht = List.map_filter id ht"

definition items_built ::
  "('b::len word, 'f) heap \<Rightarrow> addr set \<Rightarrow> ('a::len word, 'f) item list \<Rightarrow> bool" where
  "items_built h N its =
     (distinct (map fst its) \<and> N = (\<Union>t \<in> set its. footprint t) \<and>
      (\<forall>t \<in> set its. \<forall>t' \<in> set its.
         TvA (fst t') \<notin> snd (snd t) \<and> (fst t \<noteq> fst t' \<longrightarrow> snd (snd t) \<inter> snd (snd t') = {})) \<and>
      (\<forall>t \<in> set its. converts h (fst t) (fst (snd t)) (snd (snd t))))"

definition dict_rep :: "hashtab_T \<Rightarrow> string list \<Rightarrow> ('i, 'f) item list \<Rightarrow> bool" where
  "dict_rep ht ks its =
     (length ks = length its \<and> length (live ht) = length its \<and>
      set (live ht) = set (zip ks (map fst its)))"

fun to_obj :: "('b::len word, 'f) typval_T \<Rightarrow> ('a::len word, 'f) Object" where
  "to_obj (VAR_NUMBER i) = kObjectTypeInt (scast i)"
| "to_obj (VAR_STRING (Some s)) = kObjectTypeString s"
| "to_obj (VAR_FLOAT f) = kObjectTypeFloat f"
| "to_obj _ = kObjectTypeNil"

text \<open>
  What a successful call of \<open>object_to_vim\<close> and of each of its loops leaves
  behind: the old heap untouched but for the cell or container written, and the
  new region built so that converting it gives the Value back. For a loop,
  \<open>its0\<close> are the items that the container held when the loop was entered,
  \<open>N0\<close> their region. \<open>otv_inv\<close>, \<open>arr_inv\<close> and \<open>dict_inv\<close> say that a call on
  Values without an empty key succeeds, leaves the Error as it was and leaves
  the heap so.
\<close>

definition otv_post ::
  "('a::len word, 'f) Object \<Rightarrow> nat \<Rightarrow> ('b::len word, 'f) heap \<Rightarrow> ('b word, 'f) heap \<Rightarrow> bool" where
  "otv_post v p h h1 =
     (le_heap h h1 \<and> agree (old h - {TvA p}) h h1 \<and> cell h1 p \<noteq> None \<and>
      converts h1 p v (new h h1) \<and> depth v \<le> Suc (length (tvs h1) - length (tvs h)))"

definition arr_post ::
  "('a::len word, 'f) Object list \<Rightarrow> nat \<Rightarrow> list_T \<Rightarrow> addr set \<Rightarrow> ('a word, 'f) item list \<Rightarrow>
     ('b::len word, 'f) heap \<Rightarrow> ('b word, 'f) heap \<Rightarrow> bool" where
  "arr_post xs l L N0 its0 h h1 =
     (le_heap h h1 \<and> agree (old h - {ListA l}) h h1 \<and>
      (\<exists>its. list_at h1 l = Some (L\<lparr>lv_items := lv_items L @ map fst its\<rparr>) \<and>
         map (\<lambda>t. fst (snd t)) its = xs \<and>
         items_built h1 (N0 \<union> new h h1) (its0 @ its)) \<and>
      (\<forall>x \<in> set xs. depth x \<le> length (tvs h1) - length (tvs h)))"

definition dict_post ::
  "(string \<times> ('a::len word, 'f) Object) list \<Rightarrow> nat \<Rightarrow> dict_T \<Rightarrow> addr set \<Rightarrow>
     ('a word, 'f) item list \<Rightarrow> string list \<Rightarrow>
     ('b::len word, 'f) heap \<Rightarrow> ('b word, 'f) heap \<Rightarrow> bool" where
  "dict_post kvs d D N0 its0 ks0 h h1 =
     (le_heap h h1 \<and> agree (old h - {DictA d}) h h1 \<and>
      (\<exists>its D1. dict_at h1 d = Some D1 \<and> dv_refcount D1 = dv_refcount D \<and>
         dv_lock D1 = dv_lock D \<and>
         dict_rep (dv_hashtab D1) (ks0 @ map (cstr \<circ> fst) kvs) (its0 @ its) \<and>
         map (\<lambda>t. fst (snd t)) its = map snd kvs \<and>
         items_built h1 (N0 \<union> new h h1) (its0 @ its)) \<and>
      (\<forall>x \<in> snd ` set kvs. depth x \<le> length (tvs h1) - length (tvs h)))"

definition otv_inv where
  "otv_inv hpos v p h err =
     (p < length (tvs h) \<longrightarrow> \<not> has_empty_key v \<longrightarrow>
        (\<exists>h1. object_to_vim hpos v p h err = Some (True, h1, err) \<and> otv_post v p h h1))"

definition arr_inv where
  "arr_inv hpos xs l h err =
     (\<forall>L N0 its0. list_at h l = Some L \<longrightarrow> lv_items L = map fst its0 \<longrightarrow>
        items_built h N0 its0 \<longrightarrow> N0 \<subseteq> old h \<longrightarrow> ListA l \<notin> N0 \<longrightarrow>
        (\<forall>x \<in> set xs. \<not> has_empty_key x) \<longrightarrow>
        (\<exists>h1. object_to_vim_array hpos xs l h err = Some (True, h1, err) \<and>
           arr_post xs l L N0 its0 h h1))"

definition dict_inv where
  "dict_inv hpos kvs d h err =
     (\<forall>D N0 its0 ks0. dict_at h d = Some D \<longrightarrow> dict_rep (dv_hashtab D) ks0 its0 \<longrightarrow>
        items_built h N0 its0 \<longrightarrow> N0 \<subseteq> old h \<longrightarrow> DictA d \<notin> N0 \<longrightarrow>
        (\<forall>kv \<in> set kvs. fst kv \<noteq> [] \<and> \<not> has_empty_key (snd kv)) \<longrightarrow>
        (\<exists>h1. object_to_vim_dictionary hpos kvs d h err = Some (True, h1, err) \<and>
           dict_post kvs d D N0 its0 ks0 h h1))"

text \<open>Values and heaps for the examples.\<close>

definition var_heap :: "(32 word, nat) heap" where
  "var_heap = \<lparr>tvs = [Some VAR_UNKNOWN], lists = [], dicts = []\<rparr>"

definition no_error :: Error where
  "no_error = \<lparr>err_set = False, err_msg = ''''\<rparr>"

definition first_slot :: "string \<Rightarrow> string option list \<Rightarrow> nat" where
  "first_slot k ks = 0"

definition sample_value :: "(64 word, nat) Object" where
  "sample_value =
     kObjectTypeDictionary
       [(''a'', kObjectTypeArray [kObjectTypeInt 1, kObjectTypeString ''x'']),
        (''b'', kObjectTypeInt (- 7))]"

definition empty_key_value :: "(64 word, nat) Object" where
  "empty_key_value =
     kObjectTypeDictionary
       [(''ok'', kObjectTypeArray [kObjectTypeInt 2]), ('''', kObjectTypeInt 1),
        (''later'', kObjectTypeInt 3)]"

text \<open>
  Two Values that cannot be converted, the empty key being met one level down:
  a Dictionary whose first value is a Dictionary with an empty key, and an Array
  of such a Dictionary.
\<close>

definition nested_empty_key_value :: "(64 word, nat) Object" where
  "nested_empty_key_value =
     kObjectTypeDictionary
       [(''a'', kObjectTypeDictionary [('''', kObjectTypeInt 1)]), ('''', kObjectTypeInt 2)]"

definition array_empty_key_value :: "(64 word, nat) Object" where
  "array_empty_key_value = kObjectTypeArray [kObjectTypeDictionary [('''', kObjectTypeInt 1)]]"

text \<open>An unlocked dictionary with one entry, a number.\<close>

definition open_dict_heap :: "(32 word, nat) heap" where
  "open_dict_heap =
     \<lparr>tvs = [Some (VAR_DICT (Some 0)), Some (VAR_NUMBER 7)],
      lists = [],
      dicts = [Some \<lparr>dv_refcount = 1, dv_lock = 0, dv_hashtab = [None, Some (''k'', 1)]\<rparr>]\<rparr>"







text \<open>
  A list of two items, a number and the list itself, and a variable for it.
\<close>

definition two_item_heap :: "(32 word, nat) heap" where
  "two_item_heap =
     \<lparr>tvs = [Some (VAR_LIST (Some 0)), Some (VAR_NUMBER 7), Some (VAR_LIST (Some 0))],
      lists = [Some \<lparr>lv_refcount = 2, lv_items = [1, 2]\<rparr>],
      dicts = []\<rparr>"

section \<open>vim_to_object returns on every heap without pointers to nothing\<close>

lemma heap_valid_list:
  assumes "heap_valid h" "cell h p = Some (VAR_LIST (Some l))"
  shows "\<exists>L. list_at h l = Some L \<and> (\<forall>q \<in> set (lv_items L). cell h q \<noteq> None)"
proof -
  from assms(2) have "Some (VAR_LIST (Some l)) \<in> set (tvs h)"
    by (metis cell_def nth_mem option.distinct(1))
  with assms(1) have "tv_valid h (VAR_LIST (Some l))"
    by (fastforce simp: heap_valid_def list_all_iff)
  then obtain L where L: "list_at h l = Some L"
    by (auto simp: tv_valid_def)
  then have "Some L \<in> set (lists h)"
    by (metis list_at_def nth_mem option.distinct(1))
  with assms(1) have "\<forall>q \<in> set (lv_items L). cell h q \<noteq> None"
    by (fastforce simp: heap_valid_def list_all_iff)
  with L show ?thesis by blast
qed

lemma heap_valid_dict:
  assumes "heap_valid h" "cell h p = Some (VAR_DICT (Some d))"
  shows "\<exists>D. dict_at h d = Some D \<and>
           (\<forall>k q. Some (k, q) \<in> set (dv_hashtab D) \<longrightarrow> cell h q \<noteq> None)"
proof -
  from assms(2) have "Some (VAR_DICT (Some d)) \<in> set (tvs h)"
    by (metis cell_def nth_mem option.distinct(1))
  with assms(1) have "tv_valid h (VAR_DICT (Some d))"
    by (fastforce simp: heap_valid_def list_all_iff)
  then obtain D where D: "dict_at h d = Some D"
    by (auto simp: tv_valid_def)
  then have "Some D \<in> set (dicts h)"
    by (metis dict_at_def nth_mem option.distinct(1))
  with assms(1) have "\<forall>k q. Some (k, q) \<in> set (dv_hashtab D) \<longrightarrow> cell h q \<noteq> None"
    by (fastforce simp: heap_valid_def list_all_iff)
  with D show ?thesis by blast
qed

lemma unvisited_mono: "lookup \<subseteq> lk \<Longrightarrow> unvisited h lk \<le> unvisited h lookup"
  unfolding unvisited_def by (intro card_mono) auto

lemma unvisited_insert:
  assumes "cell h obj \<noteq> None" "obj \<notin> lookup"
  shows "unvisited h (insert obj lookup) < unvisited h lookup"
proof -
  from assms(1) have "obj < length (tvs h)"
    by (auto simp: cell_def split: if_splits)
  with assms(2) have "{..<length (tvs h)} - insert obj lookup \<subset> {..<length (tvs h)} - lookup"
    by auto
  then show ?thesis
    unfolding unvisited_def by (intro psubset_card_mono) auto
qed

lemma vim_to_object_list_total:
  assumes rec: "\<And>obj lookup. cell h obj \<noteq> None \<Longrightarrow> unvisited h lookup < n \<Longrightarrow>
            \<exists>v lk. vim_to_object_rec n h obj lookup = Some (v :: ('a::len word, 'f) Object, lk) \<and>
              lookup \<subseteq> lk"
  shows "(\<forall>q \<in> set items. cell h q \<noteq> None) \<Longrightarrow> unvisited h lookup < n \<Longrightarrow>
           \<exists>vs lk. vim_to_object_list n h items lookup =
              Some (vs :: ('a::len word, 'f) Object list, lk) \<and> lookup \<subseteq> lk"
proof (induction items arbitrary: lookup)
  case Nil
  then show ?case by simp
next
  case (Cons item items)
  from Cons.prems obtain v :: "('a word, 'f) Object" and lk where
    v: "vim_to_object_rec n h item lookup = Some (v, lk)" "lookup \<subseteq> lk"
    using rec [of item lookup] by auto
  from v(2) Cons.prems(2) have "unvisited h lk < n"
    using unvisited_mono [of lookup lk h] by simp
  with Cons.IH [of lk] Cons.prems(1) obtain vs :: "('a word, 'f) Object list" and lk' where
    "vim_to_object_list n h items lk = Some (vs, lk')" "lk \<subseteq> lk'"
    by auto
  with v show ?case by auto
qed

lemma vim_to_object_dict_total:
  assumes rec: "\<And>obj lookup. cell h obj \<noteq> None \<Longrightarrow> unvisited h lookup < n \<Longrightarrow>
            \<exists>v lk. vim_to_object_rec n h obj lookup = Some (v :: ('a::len word, 'f) Object, lk) \<and>
              lookup \<subseteq> lk"
  shows "(\<forall>k q. Some (k, q) \<in> set ht \<longrightarrow> cell h q \<noteq> None) \<Longrightarrow> unvisited h lookup < n \<Longrightarrow>
           \<exists>kvs lk. vim_to_object_dict n h ht lookup =
              Some (kvs :: (string \<times> ('a::len word, 'f) Object) list, lk) \<and> lookup \<subseteq> lk"
proof (induction ht arbitrary: lookup)
  case Nil
  then show ?case by simp
next
  case (Cons hi ht)
  show ?case
  proof (cases hi)
    case None
    with Cons show ?thesis by simp
  next
    case (Some kq)
    obtain k q where kq: "kq = (k, q)" by (cases kq)
    from Cons.prems Some kq obtain v :: "('a word, 'f) Object" and lk where
      v: "vim_to_object_rec n h q lookup = Some (v, lk)" "lookup \<subseteq> lk"
      using rec [of q lookup] by auto
    from v(2) Cons.prems(2) have "unvisited h lk < n"
      using unvisited_mono [of lookup lk h] by simp
    with Cons.IH [of lk] Cons.prems(1)
    obtain kvs :: "(string \<times> ('a word, 'f) Object) list" and lk' where
      "vim_to_object_dict n h ht lk = Some (kvs, lk')" "lk \<subseteq> lk'"
      by auto
    with v Some kq show ?thesis by auto
  qed
qed

lemma vim_to_object_rec_total:
  assumes "heap_valid h"
  shows "cell h obj \<noteq> None \<Longrightarrow> unvisited h lookup < n \<Longrightarrow>
           \<exists>v lk. vim_to_object_rec n h obj lookup = Some (v :: ('a::len word, 'f) Object, lk) \<and>
              lookup \<subseteq> lk"
proof (induction n arbitrary: obj lookup)
  case 0
  then show ?case by simp
next
  case (Suc n)
  from Suc.prems(1) obtain tv where tv: "cell h obj = Some tv" by auto
  show ?case
  proof (cases "is_container tv \<and> obj \<in> lookup")
    case True
    with tv show ?thesis by simp
  next
    case False
    show ?thesis
    proof (cases "is_container tv")
      case nc: False
      with tv show ?thesis
        by (cases tv) (auto split: option.splits)
    next
      case c: True
      with False have notin: "obj \<notin> lookup" by simp
      from unvisited_insert [OF Suc.prems(1) notin] Suc.prems(2)
      have less: "unvisited h (insert obj lookup) < n" by simp
      from c consider lp where "tv = VAR_LIST lp" | dp where "tv = VAR_DICT dp"
        by (cases tv) auto
      then show ?thesis
      proof cases
        case 1
        show ?thesis
        proof (cases lp)
          case None
          with 1 tv notin show ?thesis by auto
        next
          case (Some l)
          from heap_valid_list [OF assms] tv 1 Some obtain L where
            L: "list_at h l = Some L" "\<forall>q \<in> set (lv_items L). cell h q \<noteq> None"
            by blast
          from vim_to_object_list_total [of h n "lv_items L" "insert obj lookup"]
            Suc.IH L(2) less
          obtain vs :: "('a word, 'f) Object list" and lk where
            "vim_to_object_list n h (lv_items L) (insert obj lookup) = Some (vs, lk)"
            "insert obj lookup \<subseteq> lk"
            by blast
          with 1 Some tv notin L(1) show ?thesis by auto
        qed
      next
        case 2
        show ?thesis
        proof (cases dp)
          case None
          with 2 tv notin show ?thesis by auto
        next
          case (Some d)
          from heap_valid_dict [OF assms] tv 2 Some obtain D where
            D: "dict_at h d = Some D"
               "\<forall>k q. Some (k, q) \<in> set (dv_hashtab D) \<longrightarrow> cell h q \<noteq> None"
            by blast
          from vim_to_object_dict_total [of h n "dv_hashtab D" "insert obj lookup"]
            Suc.IH D(2) less
          obtain kvs :: "(string \<times> ('a word, 'f) Object) list" and lk where
            "vim_to_object_dict n h (dv_hashtab D) (insert obj lookup) = Some (kvs, lk)"
            "insert obj lookup \<subseteq> lk"
            by blast
          with 2 Some tv notin D(1) show ?thesis by auto
        qed
      qed
    qed
  qed
qed

lemma vim_to_object_total:
  assumes "heap_valid h" "cell h obj \<noteq> None"
  shows "\<exists>v :: ('a::len word, 'f) Object. vim_to_object h obj = Some v"
proof -
  have "unvisited h {} < Suc (length (tvs h))"
    by (simp add: unvisited_def)
  from vim_to_object_rec_total [OF assms this]
  obtain v :: "('a word, 'f) Object" and lk where
    "vim_to_object_rec (Suc (length (tvs h))) h obj {} = Some (v, lk)"
    by blast
  then show ?thesis by (simp add: vim_to_object_def)
qed

lemma hash_find_Some:
  "hash_find ht k = Some (i, p) \<Longrightarrow> i < length ht \<and> ht ! i = Some (k, p)"
proof (induction ht k arbitrary: i rule: hash_find.induct)
  case (1 k)
  then show ?case by simp
next
  case (2 his k)
  then show ?case by auto
next
  case (3 k' p' his k)
  then show ?case by (auto split: if_splits)
qed

lemma heap_valid_dict_at:
  assumes "heap_valid h" "dict_at h d = Some D" "Some (k, q) \<in> set (dv_hashtab D)"
  shows "cell h q \<noteq> None"
proof -
  from assms(2) have "Some D \<in> set (dicts h)"
    by (metis dict_at_def nth_mem option.distinct(1))
  with assms(1,3) show ?thesis
    by (fastforce simp: heap_valid_def list_all_iff)
qed

section \<open>object_to_vim builds a tree that converts back\<close>

lemma length_clr [simp]: "length (clr S xs) = length xs"
  by (simp add: clr_def)

lemma nth_clr [simp]: "i < length xs \<Longrightarrow> clr S xs ! i = (if i \<in> S then None else xs ! i)"
  by (simp add: clr_def)


lemma clr_empty [simp]: "clr {} xs = xs"
  by (rule nth_equalityI) auto




lemma clear_empty [simp]: "clear {} h = h"
  by (simp add: clear_def)




lemma cell_clear [simp]: "cell (clear R h) i = (if TvA i \<in> R then None else cell h i)"
  by (simp add: cell_def clear_def)

lemma list_at_clear [simp]:
  "list_at (clear R h) i = (if ListA i \<in> R then None else list_at h i)"
  by (simp add: list_at_def clear_def)

lemma dict_at_clear [simp]:
  "dict_at (clear R h) i = (if DictA i \<in> R then None else dict_at h i)"
  by (simp add: dict_at_def clear_def)

lemma length_clear [simp]:
  "length (tvs (clear R h)) = length (tvs h)"
  "length (lists (clear R h)) = length (lists h)"
  "length (dicts (clear R h)) = length (dicts h)"
  by (simp_all add: clear_def)

lemma agree_refl [simp]: "agree R h h"
  by (simp add: agree_def)

lemma agree_sym: "agree R h h' \<Longrightarrow> agree R h' h"
  by (simp add: agree_def)

lemma agree_trans: "agree R h h' \<Longrightarrow> agree R h' h'' \<Longrightarrow> agree R h h''"
  by (simp add: agree_def)

lemma agree_mono: "agree R h h' \<Longrightarrow> R' \<subseteq> R \<Longrightarrow> agree R' h h'"
  by (auto simp: agree_def)


lemma agree_cell: "agree R h h' \<Longrightarrow> TvA i \<in> R \<Longrightarrow> cell h' i = cell h i"
  by (simp add: agree_def)

lemma agree_list: "agree R h h' \<Longrightarrow> ListA i \<in> R \<Longrightarrow> list_at h' i = list_at h i"
  by (simp add: agree_def)

lemma agree_dict: "agree R h h' \<Longrightarrow> DictA i \<in> R \<Longrightarrow> dict_at h' i = dict_at h i"
  by (simp add: agree_def)


lemma fits_scast:
  fixes i :: "'a::len word"
  assumes "fits LENGTH('b::len) i"
  shows "scast (scast i :: 'b word) = i"
proof -
  have "sint (scast i :: 'b word) = signed_take_bit (LENGTH('b) - 1) (sint i)"
    by (simp only: scast_eq sint_sbintrunc')
  also have "\<dots> = sint i"
    using assms by (simp add: fits_def signed_take_bit_int_eq_self)
  finally have s: "sint (scast i :: 'b word) = sint i" .
  have "scast (scast i :: 'b word) = (word_of_int (sint (scast i :: 'b word)) :: 'a word)"
    by (rule scast_eq)
  also have "\<dots> = (word_of_int (sint i) :: 'a word)"
    by (simp only: s)
  also have "\<dots> = (scast i :: 'a word)"
    by (rule scast_eq [symmetric])
  also have "\<dots> = i"
    by (rule scast_id)
  finally show ?thesis .
qed

lemma cstr_id: "CHR 0x00 \<notin> set s \<Longrightarrow> cstr s = s"
  by (auto simp: cstr_def)

lemma live_simps [simp]:
  "live [] = []"
  "live (None # ht) = live ht"
  "live (Some e # ht) = e # live ht"
  by (simp_all add: live_def map_filter_simps)

lemma ht_cells_live: "ht_cells ht = map snd (live ht)"
  by (simp add: ht_cells_def live_def)

lemma cells_simps [simp]:
  "cells {} = {}"
  "cells (A \<union> B) = cells A \<union> cells B"
  "cells (insert (TvA i) A) = insert i (cells A)"
  "cells (insert (ListA i) A) = cells A"
  "cells (insert (DictA i) A) = cells A"
  by (auto simp: cells_def)

lemma cells_UN: "cells (\<Union>x \<in> S. f x) = (\<Union>x \<in> S. cells (f x))"
  by (auto simp: cells_def)

lemma cells_footprint: "cells (footprint t) = insert (fst t) (cells (snd (snd t)))"
  by (simp add: footprint_def)

lemma converts_agree:
  "converts h q x R \<Longrightarrow> agree (insert (TvA q) R) h h' \<Longrightarrow> converts h' q x R"
  unfolding converts_def by (meson agree_trans)

lemma conv_list:
  fixes h :: "('b::len word, 'f) heap" and its :: "('a::len word, 'f) item list"
  assumes c: "\<forall>t \<in> set its. converts h (fst t) (fst (snd t)) (snd (snd t))"
    and ok: "\<forall>t \<in> set its. rt_ok LENGTH('b) (fst (snd t)) \<and> depth (fst (snd t)) \<le> n"
    and dj: "\<forall>t \<in> set its. \<forall>t' \<in> set its. fst t \<noteq> fst t' \<longrightarrow> footprint t \<inter> footprint t' = {}"
    and di: "distinct (map fst its)"
    and ag: "agree (\<Union>t \<in> set its. footprint t) h h2"
    and L: "L \<inter> cells (\<Union>t \<in> set its. footprint t) = {}"
  shows "\<exists>vs L'. vim_to_object_list n h2 (map fst its) L = Some (vs, L') \<and>
           list_all2 obj_eq (map (\<lambda>t. fst (snd t)) its) vs \<and>
           L \<subseteq> L' \<and> L' \<subseteq> L \<union> cells (\<Union>t \<in> set its. footprint t)"
  using c ok dj di ag L
proof (induction its arbitrary: L)
  case Nil
  then show ?case by simp
next
  case (Cons t its)
  obtain q x R where t: "t = (q, x, R)" by (cases t)
  have agt: "agree (insert (TvA q) R) h h2"
    using Cons.prems(5) by (rule agree_mono) (auto simp: t footprint_def)
  have Lt: "L \<inter> insert q (cells R) = {}"
    using Cons.prems(6) by (auto simp: t cells_UN cells_footprint)
  from Cons.prems(1,2) t have "converts h q x R" "rt_ok LENGTH('b) x" "depth x \<le> n"
    by auto
  with agt Lt obtain v' L1 where
    v: "vim_to_object_rec n h2 q L = Some (v', L1)" "obj_eq x v'" "L \<subseteq> L1"
       "L1 \<subseteq> L \<union> insert q (cells R)"
    unfolding converts_def by blast
  have disj: "\<forall>t' \<in> set its. footprint t \<inter> footprint t' = {}"
    using Cons.prems(3,4) by (force simp: t)
  have L1: "L1 \<inter> cells (\<Union>t \<in> set its. footprint t) = {}"
  proof -
    have "insert q (cells R) \<inter> cells (\<Union>t \<in> set its. footprint t) = {}"
      using disj by (auto simp: t cells_def footprint_def)
    moreover have "L \<inter> cells (\<Union>t \<in> set its. footprint t) = {}"
      using Cons.prems(6) by (auto simp: cells_UN)
    ultimately show ?thesis using v(4) by blast
  qed
  have ag': "agree (\<Union>t \<in> set its. footprint t) h h2"
    using Cons.prems(5) by (rule agree_mono) auto
  from Cons.IH [OF _ _ _ _ ag' L1] Cons.prems(1,2,3,4)
  obtain vs L' where
    vs: "vim_to_object_list n h2 (map fst its) L1 = Some (vs, L')"
        "list_all2 obj_eq (map (\<lambda>t. fst (snd t)) its) vs" "L1 \<subseteq> L'"
        "L' \<subseteq> L1 \<union> cells (\<Union>t \<in> set its. footprint t)"
    by auto
  have "L' \<subseteq> L \<union> cells (\<Union>t \<in> set (t # its). footprint t)"
    using vs(4) v(4) by (auto simp: t cells_UN cells_footprint)
  with v vs show ?case by (auto simp: t)
qed

lemma conv_dict:
  fixes h :: "('b::len word, 'f) heap" and its :: "('a::len word, 'f) item list"
  assumes c: "\<forall>t \<in> set its. converts h (fst t) (fst (snd t)) (snd (snd t))"
    and ok: "\<forall>t \<in> set its. rt_ok LENGTH('b) (fst (snd t)) \<and> depth (fst (snd t)) \<le> n"
    and dj: "\<forall>t \<in> set its. \<forall>t' \<in> set its. fst t \<noteq> fst t' \<longrightarrow> footprint t \<inter> footprint t' = {}"
    and m: "set (ht_cells ht) \<subseteq> fst ` set its"
    and dq: "distinct (ht_cells ht)"
    and ag: "agree (\<Union>t \<in> set its. footprint t) h h2"
    and L: "L \<inter> cells (\<Union>t \<in> {t \<in> set its. fst t \<in> set (ht_cells ht)}. footprint t) = {}"
  shows "\<exists>kvs L'. vim_to_object_dict n h2 ht L = Some (kvs, L') \<and>
           list_all2 (\<lambda>e kv. fst kv = fst e \<and>
              (\<exists>t \<in> set its. fst t = snd e \<and> obj_eq (fst (snd t)) (snd kv))) (live ht) kvs \<and>
           L \<subseteq> L' \<and> L' \<subseteq> L \<union> cells (\<Union>t \<in> set its. footprint t)"
  using m dq L
proof (induction ht arbitrary: L)
  case Nil
  then show ?case by simp
next
  case (Cons e ht)
  show ?case
  proof (cases e)
    case None
    with Cons show ?thesis by (simp add: ht_cells_live)
  next
    case (Some kq)
    obtain k q where kq: "kq = (k, q)" by (cases kq)
    from Cons.prems(1) Some kq obtain t where t: "t \<in> set its" "fst t = q"
      by (auto simp: ht_cells_live)
    obtain x R where tq: "t = (q, x, R)" using t(2) by (cases t) auto
    have fp: "footprint t = insert (TvA q) R"
      by (simp add: tq footprint_def)
    have "footprint t \<subseteq> (\<Union>t \<in> set its. footprint t)"
      using t(1) by blast
    with ag have agt: "agree (insert (TvA q) R) h h2"
      unfolding fp by (rule agree_mono)
    have Lt: "L \<inter> insert q (cells R) = {}"
      using Cons.prems(3) t(1) Some kq
      by (auto simp: tq cells_def footprint_def ht_cells_live)
    from c ok t(1) tq have "converts h q x R" "rt_ok LENGTH('b) x" "depth x \<le> n"
      by auto
    with agt Lt obtain v' L1 where
      v: "vim_to_object_rec n h2 q L = Some (v', L1)" "obj_eq x v'" "L \<subseteq> L1"
         "L1 \<subseteq> L \<union> insert q (cells R)"
      unfolding converts_def by blast
    have L1: "L1 \<inter> cells (\<Union>t \<in> {t \<in> set its. fst t \<in> set (ht_cells ht)}. footprint t) = {}"
    proof -
      have "q \<notin> set (ht_cells ht)"
        using Cons.prems(2) Some kq by (simp add: ht_cells_live)
      then have "\<forall>t' \<in> {t \<in> set its. fst t \<in> set (ht_cells ht)}. fst t \<noteq> fst t'"
        using t(2) by auto
      with dj t(1) have "\<forall>t' \<in> {t \<in> set its. fst t \<in> set (ht_cells ht)}.
                   footprint t \<inter> footprint t' = {}"
        by blast
      then have "insert q (cells R) \<inter>
          cells (\<Union>t \<in> {t \<in> set its. fst t \<in> set (ht_cells ht)}. footprint t) = {}"
        by (auto simp: tq cells_def footprint_def)
      moreover have
        "L \<inter> cells (\<Union>t \<in> {t \<in> set its. fst t \<in> set (ht_cells ht)}. footprint t) = {}"
        using Cons.prems(3) Some kq by (auto simp: cells_UN ht_cells_live)
      ultimately show ?thesis using v(4) by blast
    qed
    from Cons.prems(1,2) Some kq have "set (ht_cells ht) \<subseteq> fst ` set its" "distinct (ht_cells ht)"
      by (auto simp: ht_cells_live)
    from Cons.IH [OF this L1]
    obtain kvs L' where
      kvs: "vim_to_object_dict n h2 ht L1 = Some (kvs, L')"
        "list_all2 (\<lambda>e kv. fst kv = fst e \<and>
              (\<exists>t \<in> set its. fst t = snd e \<and> obj_eq (fst (snd t)) (snd kv))) (live ht) kvs"
        "L1 \<subseteq> L'" "L' \<subseteq> L1 \<union> cells (\<Union>t \<in> set its. footprint t)"
      by blast
    have "cells (footprint t) \<subseteq> cells (\<Union>t \<in> set its. footprint t)"
      using t(1) by (auto simp: cells_def)
    then have "insert q (cells R) \<subseteq> cells (\<Union>t \<in> set its. footprint t)"
      by (simp add: fp)
    with kvs(4) v(4) have "L' \<subseteq> L \<union> cells (\<Union>t \<in> set its. footprint t)"
      by blast
    moreover have "\<exists>t \<in> set its. fst t = q \<and> obj_eq (fst (snd t)) v'"
      by (rule bexI [OF _ t(1)]) (use v(2) tq in simp)
    ultimately show ?thesis
      using v kvs Some kq by auto
  qed
qed

lemma in_old [simp]:
  "TvA i \<in> old h \<longleftrightarrow> i < length (tvs h)"
  "ListA i \<in> old h \<longleftrightarrow> i < length (lists h)"
  "DictA i \<in> old h \<longleftrightarrow> i < length (dicts h)"
  by (auto simp: old_def)

lemma in_new [simp]:
  "TvA i \<in> new h h' \<longleftrightarrow> length (tvs h) \<le> i \<and> i < length (tvs h')"
  "ListA i \<in> new h h' \<longleftrightarrow> length (lists h) \<le> i \<and> i < length (lists h')"
  "DictA i \<in> new h h' \<longleftrightarrow> length (dicts h) \<le> i \<and> i < length (dicts h')"
  by (auto simp: new_def)

lemma agreeI:
  assumes "\<And>i. TvA i \<in> R \<Longrightarrow> cell h' i = cell h i"
    and "\<And>i. ListA i \<in> R \<Longrightarrow> list_at h' i = list_at h i"
    and "\<And>i. DictA i \<in> R \<Longrightarrow> dict_at h' i = dict_at h i"
  shows "agree R h h'"
  using assms by (simp add: agree_def)

lemma addr_subsetI:
  assumes "\<And>i. TvA i \<in> A \<Longrightarrow> TvA i \<in> B"
    and "\<And>i. ListA i \<in> A \<Longrightarrow> ListA i \<in> B"
    and "\<And>i. DictA i \<in> A \<Longrightarrow> DictA i \<in> B"
  shows "A \<subseteq> B"
proof
  fix a assume "a \<in> A"
  with assms show "a \<in> B" by (cases a) auto
qed

lemma addr_eqI:
  assumes "\<And>i. TvA i \<in> A \<longleftrightarrow> TvA i \<in> B"
    and "\<And>i. ListA i \<in> A \<longleftrightarrow> ListA i \<in> B"
    and "\<And>i. DictA i \<in> A \<longleftrightarrow> DictA i \<in> B"
  shows "A = B"
  using assms by (intro equalityI addr_subsetI) auto

lemma cell_upd [simp]:
  "cell (h\<lparr>lists := X\<rparr>) i = cell h i"
  "cell (h\<lparr>dicts := Y\<rparr>) i = cell h i"
  "list_at (h\<lparr>tvs := Z\<rparr>) i = list_at h i"
  "list_at (h\<lparr>dicts := Y\<rparr>) i = list_at h i"
  "dict_at (h\<lparr>tvs := Z\<rparr>) i = dict_at h i"
  "dict_at (h\<lparr>lists := X\<rparr>) i = dict_at h i"
  by (simp_all add: cell_def list_at_def dict_at_def)

lemma cell_set_tv [simp]:
  "cell (set_tv p tv h) i = (if i = p \<and> p < length (tvs h) then Some tv else cell h i)"
  "list_at (set_tv p tv h) i = list_at h i"
  "dict_at (set_tv p tv h) i = dict_at h i"
  "length (tvs (set_tv p tv h)) = length (tvs h)"
  "length (lists (set_tv p tv h)) = length (lists h)"
  "length (dicts (set_tv p tv h)) = length (dicts h)"
  by (auto simp: set_tv_def cell_def)

lemma list_alloc_simps [simp]:
  "fst (list_alloc h) = length (lists h)"
  "cell (snd (list_alloc h)) i = cell h i"
  "list_at (snd (list_alloc h)) i =
     (if i = length (lists h) then Some \<lparr>lv_refcount = 0, lv_items = []\<rparr> else list_at h i)"
  "dict_at (snd (list_alloc h)) i = dict_at h i"
  "length (tvs (snd (list_alloc h))) = length (tvs h)"
  "length (lists (snd (list_alloc h))) = Suc (length (lists h))"
  "length (dicts (snd (list_alloc h))) = length (dicts h)"
  by (auto simp: list_alloc_def list_at_def nth_append)

lemma dict_alloc_simps [simp]:
  "fst (dict_alloc h) = length (dicts h)"
  "cell (snd (dict_alloc h)) i = cell h i"
  "list_at (snd (dict_alloc h)) i = list_at h i"
  "dict_at (snd (dict_alloc h)) i =
     (if i = length (dicts h) then Some \<lparr>dv_refcount = 0, dv_lock = 0, dv_hashtab = []\<rparr>
      else dict_at h i)"
  "length (tvs (snd (dict_alloc h))) = length (tvs h)"
  "length (lists (snd (dict_alloc h))) = length (lists h)"
  "length (dicts (snd (dict_alloc h))) = Suc (length (dicts h))"
  by (auto simp: dict_alloc_def dict_at_def nth_append)

lemma listitem_alloc_simps [simp]:
  "fst (listitem_alloc h) = length (tvs h)"
  "cell (snd (listitem_alloc h)) i =
     (if i = length (tvs h) then Some VAR_UNKNOWN else cell h i)"
  "list_at (snd (listitem_alloc h)) i = list_at h i"
  "dict_at (snd (listitem_alloc h)) i = dict_at h i"
  "length (tvs (snd (listitem_alloc h))) = Suc (length (tvs h))"
  "length (lists (snd (listitem_alloc h))) = length (lists h)"
  "length (dicts (snd (listitem_alloc h))) = length (dicts h)"
  by (auto simp: listitem_alloc_def cell_def nth_append)

lemma dictitem_alloc_simps [simp]:
  "fst (dictitem_alloc k h) = (k, length (tvs h))"
  "snd (dictitem_alloc k h) = snd (listitem_alloc h)"
  by (auto simp: dictitem_alloc_def listitem_alloc_def)

lemma list_append_simps [simp]:
  "cell (list_append l li h) i = cell h i"
  "list_at (list_append l li h) i =
     (if i = l then map_option (\<lambda>L. L\<lparr>lv_items := lv_items L @ [li]\<rparr>) (list_at h l)
      else list_at h i)"
  "dict_at (list_append l li h) i = dict_at h i"
  "length (tvs (list_append l li h)) = length (tvs h)"
  "length (lists (list_append l li h)) = length (lists h)"
  "length (dicts (list_append l li h)) = length (dicts h)"
  by (auto simp: list_append_def list_at_def split: option.splits)

lemma list_ref_simps [simp]:
  "cell (list_ref l h) i = cell h i"
  "list_at (list_ref l h) i =
     (if i = l then map_option (\<lambda>L. L\<lparr>lv_refcount := lv_refcount L + 1\<rparr>) (list_at h l)
      else list_at h i)"
  "dict_at (list_ref l h) i = dict_at h i"
  "length (tvs (list_ref l h)) = length (tvs h)"
  "length (lists (list_ref l h)) = length (lists h)"
  "length (dicts (list_ref l h)) = length (dicts h)"
  by (auto simp: list_ref_def list_at_def split: option.splits)

lemma dict_add_simps [simp]:
  "cell (dict_add hpos d di h) i = cell h i"
  "list_at (dict_add hpos d di h) i = list_at h i"
  "dict_at (dict_add hpos d di h) i =
     (if i = d then map_option (\<lambda>D. D\<lparr>dv_hashtab := hash_add hpos (dv_hashtab D) di\<rparr>) (dict_at h d)
      else dict_at h i)"
  "length (tvs (dict_add hpos d di h)) = length (tvs h)"
  "length (lists (dict_add hpos d di h)) = length (lists h)"
  "length (dicts (dict_add hpos d di h)) = length (dicts h)"
  by (auto simp: dict_add_def dict_at_def split: option.splits)

lemma dict_ref_simps [simp]:
  "cell (dict_ref d h) i = cell h i"
  "list_at (dict_ref d h) i = list_at h i"
  "dict_at (dict_ref d h) i =
     (if i = d then map_option (\<lambda>D. D\<lparr>dv_refcount := dv_refcount D + 1\<rparr>) (dict_at h d)
      else dict_at h i)"
  "length (tvs (dict_ref d h)) = length (tvs h)"
  "length (lists (dict_ref d h)) = length (lists h)"
  "length (dicts (dict_ref d h)) = length (dicts h)"
  by (auto simp: dict_ref_def dict_at_def split: option.splits)

lemma live_hash_add:
  "set (live (hash_add hpos ht di)) = insert di (set (live ht))"
  "length (live (hash_add hpos ht di)) = Suc (length (live ht))"
proof -
  have app: "live (xs @ ys) = live xs @ live ys" for xs ys
    by (simp add: live_def map_filter_def)
  define i where "i = min (hpos (fst di) (map (map_option fst) ht)) (length ht)"
  have "live ht = live (take i ht) @ live (drop i ht)"
    by (metis app append_take_drop_id)
  moreover have "live (hash_add hpos ht di) = live (take i ht) @ di # live (drop i ht)"
    by (simp add: hash_add_def i_def app Let_def)
  ultimately show "set (live (hash_add hpos ht di)) = insert di (set (live ht))"
    "length (live (hash_add hpos ht di)) = Suc (length (live ht))"
    by auto
qed


lemma list_at_some_less: "list_at h i = Some L \<Longrightarrow> i < length (lists h)"
  by (auto simp: list_at_def split: if_splits)

lemma dict_at_some_less: "dict_at h i = Some D \<Longrightarrow> i < length (dicts h)"
  by (auto simp: dict_at_def split: if_splits)

lemma items_built_Nil [simp]: "items_built h {} []"
  by (simp add: items_built_def)

lemma items_built_snoc:
  assumes ib: "items_built h N its"
    and cv: "converts h q x R"
    and d: "TvA q \<notin> N" "TvA q \<notin> R" "R \<inter> N = {}"
  shows "items_built h (N \<union> insert (TvA q) R) (its @ [(q, x, R)])"
proof -
  from ib have N: "N = (\<Union>t \<in> set its. footprint t)"
    by (simp add: items_built_def)
  have qn: "q \<notin> fst ` set its"
    using d(1) by (auto simp: N footprint_def)
  have sub: "\<And>t. t \<in> set its \<Longrightarrow> footprint t \<subseteq> N"
    by (auto simp: N)
  have 1: "distinct (map fst (its @ [(q, x, R)]))"
    using ib qn by (simp add: items_built_def)
  have 2: "N \<union> insert (TvA q) R = (\<Union>t \<in> set (its @ [(q, x, R)]). footprint t)"
    by (auto simp: N footprint_def)
  have 3: "\<forall>t \<in> set (its @ [(q, x, R)]). \<forall>t' \<in> set (its @ [(q, x, R)]).
         TvA (fst t') \<notin> snd (snd t) \<and> (fst t \<noteq> fst t' \<longrightarrow> snd (snd t) \<inter> snd (snd t') = {})"
  proof (intro ballI)
    fix t t'
    assume t: "t \<in> set (its @ [(q, x, R)])" and t': "t' \<in> set (its @ [(q, x, R)])"
    consider "t \<in> set its" "t' \<in> set its" | "t \<in> set its" "t' = (q, x, R)"
      | "t = (q, x, R)" "t' \<in> set its" | "t = (q, x, R)" "t' = (q, x, R)"
      using t t' by auto
    then show "TvA (fst t') \<notin> snd (snd t) \<and>
        (fst t \<noteq> fst t' \<longrightarrow> snd (snd t) \<inter> snd (snd t') = {})"
    proof cases
      case 1
      with ib show ?thesis by (simp add: items_built_def)
    next
      case 2
      with sub [of t] d show ?thesis by (auto simp: footprint_def)
    next
      case 3
      with sub [of t'] d show ?thesis by (auto simp: footprint_def)
    next
      case 4
      with d show ?thesis by simp
    qed
  qed
  have 4: "\<forall>t \<in> set (its @ [(q, x, R)]). converts h (fst t) (fst (snd t)) (snd (snd t))"
    using ib cv by (auto simp: items_built_def)
  from 1 2 3 4 show ?thesis
    unfolding items_built_def by blast
qed

lemma items_built_agree:
  assumes "items_built h N its" "agree N h h'"
  shows "items_built h' N its"
proof -
  from assms(1) have N: "N = (\<Union>t \<in> set its. footprint t)"
    by (simp add: items_built_def)
  have "converts h' (fst t) (fst (snd t)) (snd (snd t))" if t: "t \<in> set its" for t
  proof -
    have fp: "footprint t \<subseteq> N" using t by (auto simp: N)
    with assms(2) have a: "agree (footprint t) h h'" by (rule agree_mono)
    from assms(1) t have "converts h (fst t) (fst (snd t)) (snd (snd t))"
      by (auto simp: items_built_def)
    with a show ?thesis
      by (auto intro: converts_agree simp: footprint_def)
  qed
  with assms(1) show ?thesis
    by (simp add: items_built_def)
qed

lemma items_built_disjoint:
  assumes "items_built h N its" "t \<in> set its" "t' \<in> set its" "fst t \<noteq> fst t'"
  shows "footprint t \<inter> footprint t' = {}"
proof -
  from assms have "TvA (fst t') \<notin> snd (snd t)" "TvA (fst t) \<notin> snd (snd t')"
    "snd (snd t) \<inter> snd (snd t') = {}"
    by (auto simp: items_built_def)
  with assms(4) show ?thesis
    by (auto simp: footprint_def)
qed

lemma dict_rep_cells:
  assumes "dict_rep ht ks its" "distinct (map fst its)"
  shows "set (ht_cells ht) = fst ` set its" "distinct (ht_cells ht)"
proof -
  from assms(1) have len: "length ks = length (map fst its)"
    and ll: "length (live ht) = length its"
    and s: "set (live ht) = set (zip ks (map fst its))"
    by (auto simp: dict_rep_def)
  have "set (ht_cells ht) = snd ` set (zip ks (map fst its))"
    by (simp add: ht_cells_live s [symmetric])
  also have "\<dots> = set (map snd (zip ks (map fst its)))"
    by simp
  also have "\<dots> = set (map fst its)"
    using len by (simp only: map_snd_zip)
  finally show 1: "set (ht_cells ht) = fst ` set its" by simp
  have "card (set (ht_cells ht)) = length (map fst its)"
    using 1 assms(2) by (metis distinct_card set_map)
  then have "card (set (ht_cells ht)) = length (ht_cells ht)"
    using ll by (simp add: ht_cells_live)
  then show "distinct (ht_cells ht)"
    by (rule card_distinct)
qed

lemma depth_array_le:
  "depth (kObjectTypeArray xs) \<le> Suc m \<longleftrightarrow> (\<forall>x \<in> set xs. depth x \<le> m)"
  by (auto simp: Max_le_iff)

lemma depth_dict_le:
  "depth (kObjectTypeDictionary kvs) \<le> Suc m \<longleftrightarrow> (\<forall>(k, v) \<in> set kvs. depth v \<le> m)"
  by (auto simp: Max_le_iff)

lemma depth_pos: "0 < depth x"
  by (cases x) auto

lemma built_array_converts:
  fixes h :: "('b::len word, 'f) heap" and its :: "('a::len word, 'f) item list"
  assumes p: "cell h p = Some (VAR_LIST (Some l))" and l: "list_at h l = Some L"
    and it: "lv_items L = map fst its" and ib: "items_built h N its" and pn: "TvA p \<notin> N"
  shows "converts h p (kObjectTypeArray (map (\<lambda>t. fst (snd t)) its)) (insert (ListA l) N)"
  unfolding converts_def
proof (intro impI allI)
  fix h2 :: "('b word, 'f) heap" and Lk n
  assume ok: "rt_ok LENGTH('b) (kObjectTypeArray (map (\<lambda>t. fst (snd t)) its))"
    and ag: "agree (insert (TvA p) (insert (ListA l) N)) h h2"
    and Lk: "Lk \<inter> insert p (cells (insert (ListA l) N)) = {}"
    and dn: "depth (kObjectTypeArray (map (\<lambda>t. fst (snd t)) its)) \<le> n"
  from dn obtain m where n: "n = Suc m" by (cases n) auto
  from dn have dm: "\<forall>t \<in> set its. depth (fst (snd t)) \<le> m"
    unfolding n depth_array_le by simp
  from ib have N: "N = (\<Union>t \<in> set its. footprint t)" and di: "distinct (map fst its)"
    by (auto simp: items_built_def)
  have p2: "cell h2 p = Some (VAR_LIST (Some l))" and l2: "list_at h2 l = Some L"
    using ag p l by (auto simp: agree_def)
  have pL: "p \<notin> Lk" using Lk by auto
  have 1: "\<forall>t \<in> set its. converts h (fst t) (fst (snd t)) (snd (snd t))"
    using ib by (simp add: items_built_def)
  have 2: "\<forall>t \<in> set its. rt_ok LENGTH('b) (fst (snd t)) \<and> depth (fst (snd t)) \<le> m"
    using ok dm by simp
  have 3: "\<forall>t \<in> set its. \<forall>t' \<in> set its. fst t \<noteq> fst t' \<longrightarrow> footprint t \<inter> footprint t' = {}"
    using items_built_disjoint [OF ib] by blast
  have 4: "agree (\<Union>t \<in> set its. footprint t) h h2"
    using ag unfolding N [symmetric] by (rule agree_mono) auto
  have 5: "insert p Lk \<inter> cells (\<Union>t \<in> set its. footprint t) = {}"
    using Lk pn unfolding N [symmetric] by (auto simp: cells_def)
  from conv_list [OF 1 2 3 di 4 5]
  obtain vs L' where vs: "vim_to_object_list m h2 (map fst its) (insert p Lk) = Some (vs, L')"
    "list_all2 obj_eq (map (\<lambda>t. fst (snd t)) its) vs" "insert p Lk \<subseteq> L'"
    "L' \<subseteq> insert p Lk \<union> cells (\<Union>t \<in> set its. footprint t)"
    by blast
  have "vim_to_object_rec n h2 p Lk = Some (kObjectTypeArray vs, L')"
    using p2 l2 pL vs(1) by (simp add: n it)
  moreover have "obj_eq (kObjectTypeArray (map (\<lambda>t. fst (snd t)) its)) (kObjectTypeArray vs)"
    using vs(2) by simp
  moreover have "Lk \<subseteq> L'" using vs(3) by auto
  moreover have "L' \<subseteq> Lk \<union> insert p (cells (insert (ListA l) N))"
    using vs(4) unfolding N [symmetric] by auto
  ultimately show "\<exists>v' L'. vim_to_object_rec n h2 p Lk = Some (v', L') \<and>
      obj_eq (kObjectTypeArray (map (\<lambda>t. fst (snd t)) its)) v' \<and> Lk \<subseteq> L' \<and>
      L' \<subseteq> Lk \<union> insert p (cells (insert (ListA l) N))"
    by blast
qed

lemma dict_obj_eq:
  fixes its :: "('i, 'f) item list"
  assumes di: "distinct (map fst its)" and len: "length kvs = length its"
    and vals: "map snd kvs = map (\<lambda>t. fst (snd t)) its"
    and es: "set es = set (zip (map fst kvs) (map fst its))"
    and la: "list_all2 (\<lambda>e kv. fst kv = fst e \<and>
              (\<exists>t \<in> set its. fst t = snd e \<and> obj_eq (fst (snd t)) (snd kv))) es kvs'"
    and le: "length es = length its"
  shows "obj_eq (kObjectTypeDictionary kvs) (kObjectTypeDictionary kvs')"
proof -
  have uniq: "t = its ! j" if "t \<in> set its" "fst t = fst (its ! j)" "j < length its" for t j
  proof -
    from that(3) have "its ! j \<in> set its" by simp
    with di that(1,2) show ?thesis
      by (metis eq_key_imp_eq_value prod.collapse)
  qed
  have val: "snd (kvs ! j) = fst (snd (its ! j))" if "j < length its" for j
    using vals that len by (metis length_map nth_map)
  have len': "length kvs' = length its"
    using la le by (auto dest: list_all2_lengthD)
  have fwd: "\<exists>(k', v') \<in> set kvs'. k' = k \<and> obj_eq v v'" if "(k, v) \<in> set kvs" for k v
  proof -
    from that obtain j where j: "j < length kvs" "kvs ! j = (k, v)"
      by (auto simp: in_set_conv_nth)
    then have "(k, fst (its ! j)) \<in> set (zip (map fst kvs) (map fst its))"
      using len by (auto simp: set_zip intro!: exI [of _ j])
    then obtain m where m: "m < length es" "es ! m = (k, fst (its ! j))"
      unfolding es [symmetric] by (auto simp: in_set_conv_nth)
    from la m(1) have "fst (kvs' ! m) = fst (es ! m) \<and>
        (\<exists>t \<in> set its. fst t = snd (es ! m) \<and> obj_eq (fst (snd t)) (snd (kvs' ! m)))"
      by (auto dest: list_all2_nthD)
    then obtain t where t: "fst (kvs' ! m) = k" "t \<in> set its" "fst t = fst (its ! j)"
      "obj_eq (fst (snd t)) (snd (kvs' ! m))"
      using m(2) by auto
    from uniq [OF t(2,3)] j(1) len have "t = its ! j" by simp
    with t(4) val [of j] j len have "obj_eq v (snd (kvs' ! m))" by simp
    moreover have "kvs' ! m \<in> set kvs'"
      using m(1) le len' by simp
    ultimately show ?thesis
      using t(1) by (intro bexI [of _ "kvs' ! m"]) (auto simp: case_prod_beta)
  qed
  have bwd: "\<exists>(k, v) \<in> set kvs. k' = k \<and> obj_eq v v'" if "(k', v') \<in> set kvs'" for k' v'
  proof -
    from that obtain m where m: "m < length kvs'" "kvs' ! m = (k', v')"
      by (auto simp: in_set_conv_nth)
    with len' le have ml: "m < length es" by simp
    from la ml have "fst (kvs' ! m) = fst (es ! m) \<and>
        (\<exists>t \<in> set its. fst t = snd (es ! m) \<and> obj_eq (fst (snd t)) (snd (kvs' ! m)))"
      by (auto dest: list_all2_nthD)
    then obtain t where t: "fst (es ! m) = k'" "t \<in> set its" "fst t = snd (es ! m)"
      "obj_eq (fst (snd t)) v'"
      using m(2) by auto
    have "es ! m \<in> set (zip (map fst kvs) (map fst its))"
      unfolding es [symmetric] using ml by simp
    then obtain j where j: "j < length its" "es ! m = (fst (kvs ! j), fst (its ! j))"
      using len by (auto simp: set_zip)
    from uniq [OF t(2) _ j(1)] t(3) j(2) have "t = its ! j" by simp
    with t(4) val [OF j(1)] have "obj_eq (snd (kvs ! j)) v'" by simp
    moreover have "kvs ! j \<in> set kvs" using j(1) len by simp
    moreover have "fst (kvs ! j) = k'" using t(1) j(2) by simp
    ultimately show ?thesis
      by (intro bexI [of _ "kvs ! j"]) (auto simp: case_prod_beta)
  qed
  from fwd bwd len len' show ?thesis by auto
qed

lemma built_dict_converts:
  fixes h :: "('b::len word, 'f) heap" and its :: "('a::len word, 'f) item list"
  assumes p: "cell h p = Some (VAR_DICT (Some d))" and d: "dict_at h d = Some D"
    and rep: "dict_rep (dv_hashtab D) (map (cstr \<circ> fst) kvs) its"
    and vals: "map snd kvs = map (\<lambda>t. fst (snd t)) its"
    and ib: "items_built h N its" and pn: "TvA p \<notin> N"
  shows "converts h p (kObjectTypeDictionary kvs) (insert (DictA d) N)"
  unfolding converts_def
proof (intro impI allI)
  fix h2 :: "('b word, 'f) heap" and Lk n
  assume ok: "rt_ok LENGTH('b) (kObjectTypeDictionary kvs)"
    and ag: "agree (insert (TvA p) (insert (DictA d) N)) h h2"
    and Lk: "Lk \<inter> insert p (cells (insert (DictA d) N)) = {}"
    and dn: "depth (kObjectTypeDictionary kvs) \<le> n"
  let ?ht = "dv_hashtab D"
  from dn obtain m where n: "n = Suc m" by (cases n) auto
  from dn have dm: "\<forall>(k, v) \<in> set kvs. depth v \<le> m"
    unfolding n depth_dict_le by simp
  from ib have N: "N = (\<Union>t \<in> set its. footprint t)" and di: "distinct (map fst its)"
    by (auto simp: items_built_def)
  from rep have len: "length kvs = length its"
    by (simp add: dict_rep_def)
  have keys: "map (cstr \<circ> fst) kvs = map fst kvs"
    using ok by (auto simp: cstr_id)
  have p2: "cell h2 p = Some (VAR_DICT (Some d))" and d2: "dict_at h2 d = Some D"
    using ag p d by (auto simp: agree_def)
  have pL: "p \<notin> Lk" using Lk by auto
  have sv: "set (map (\<lambda>t. fst (snd t)) its) = snd ` set kvs"
    using vals by (metis set_map)
  have 1: "\<forall>t \<in> set its. converts h (fst t) (fst (snd t)) (snd (snd t))"
    using ib by (simp add: items_built_def)
  have 2: "\<forall>t \<in> set its. rt_ok LENGTH('b) (fst (snd t)) \<and> depth (fst (snd t)) \<le> m"
  proof
    fix t assume "t \<in> set its"
    then have "fst (snd t) \<in> snd ` set kvs"
      using sv by auto
    then obtain k where "(k, fst (snd t)) \<in> set kvs" by auto
    with ok dm show "rt_ok LENGTH('b) (fst (snd t)) \<and> depth (fst (snd t)) \<le> m"
      by auto
  qed
  have 3: "\<forall>t \<in> set its. \<forall>t' \<in> set its. fst t \<noteq> fst t' \<longrightarrow> footprint t \<inter> footprint t' = {}"
    using items_built_disjoint [OF ib] by blast
  note c = dict_rep_cells [OF rep di]
  have 4: "set (ht_cells ?ht) \<subseteq> fst ` set its" using c(1) by simp
  have 5: "agree (\<Union>t \<in> set its. footprint t) h h2"
    using ag unfolding N [symmetric] by (rule agree_mono) auto
  have "insert p Lk \<inter> cells N = {}"
    using Lk pn by (auto simp: cells_def)
  then have 6: "insert p Lk \<inter>
      cells (\<Union>t \<in> {t \<in> set its. fst t \<in> set (ht_cells ?ht)}. footprint t) = {}"
    unfolding N by (auto simp: cells_def)
  from conv_dict [OF 1 2 3 4 c(2) 5 6]
  obtain kvs' L' where r: "vim_to_object_dict m h2 ?ht (insert p Lk) = Some (kvs', L')"
    "list_all2 (\<lambda>e kv. fst kv = fst e \<and>
        (\<exists>t \<in> set its. fst t = snd e \<and> obj_eq (fst (snd t)) (snd kv))) (live ?ht) kvs'"
    "insert p Lk \<subseteq> L'" "L' \<subseteq> insert p Lk \<union> cells (\<Union>t \<in> set its. footprint t)"
    by blast
  have es: "set (live ?ht) = set (zip (map fst kvs) (map fst its))"
    and le: "length (live ?ht) = length its"
    using rep by (auto simp: dict_rep_def keys)
  have "vim_to_object_rec n h2 p Lk = Some (kObjectTypeDictionary kvs', L')"
    using p2 d2 pL r(1) by (simp add: n)
  moreover have "obj_eq (kObjectTypeDictionary kvs) (kObjectTypeDictionary kvs')"
    using dict_obj_eq [OF di len vals es r(2) le] .
  moreover have "Lk \<subseteq> L'" using r(3) by auto
  moreover have "L' \<subseteq> Lk \<union> insert p (cells (insert (DictA d) N))"
    using r(4) unfolding N [symmetric] by auto
  ultimately show "\<exists>v' L'. vim_to_object_rec n h2 p Lk = Some (v', L') \<and>
      obj_eq (kObjectTypeDictionary kvs) v' \<and> Lk \<subseteq> L' \<and>
      L' \<subseteq> Lk \<union> insert p (cells (insert (DictA d) N))"
    by blast
qed

lemma obj_eq_refl: "obj_eq x x"
proof (induction x)
  case (kObjectTypeArray xs)
  then show ?case by (simp add: list_all2_same)
next
  case (kObjectTypeDictionary kvs)
  have "obj_eq (snd kv) (snd kv)" if "kv \<in> set kvs" for kv
  proof -
    obtain k v where kv: "kv = (k, v)" by (cases kv)
    have "v \<in> Basic_BNFs.snds kv" by (simp add: kv)
    from kObjectTypeDictionary [OF that this] show ?thesis by (simp add: kv)
  qed
  then have "\<forall>kv \<in> set kvs. obj_eq (snd kv) (snd kv)" by blast
  then show ?case by (simp add: case_prod_beta) blast
qed simp_all

lemma rec_scalar:
  "cell h p = Some tv \<Longrightarrow> \<not> is_container tv \<Longrightarrow>
     vim_to_object_rec (Suc m) h p L = Some (to_obj tv, L)"
  by (cases tv) (auto split: option.splits)

lemma converts_scalar:
  fixes h :: "('b::len word, 'f) heap" and x :: "('a::len word, 'f) Object"
  assumes "cell h p = Some tv" "\<not> is_container tv"
    and "rt_ok LENGTH('b) x \<Longrightarrow> to_obj tv = x"
  shows "converts h p x {}"
  unfolding converts_def
proof (intro impI allI)
  fix h2 :: "('b word, 'f) heap" and L n
  assume ok: "rt_ok LENGTH('b) x" and ag: "agree {TvA p} h h2" and dn: "depth x \<le> n"
  from dn depth_pos [of x] obtain m where n: "n = Suc m" by (cases n) auto
  from ag assms(1) have "cell h2 p = Some tv" by (simp add: agree_def)
  then have "vim_to_object_rec (Suc m) h2 p L = Some (to_obj tv :: ('a word, 'f) Object, L)"
    using assms(2) by (rule rec_scalar)
  with assms(3) [OF ok] have "vim_to_object_rec n h2 p L = Some (x, L)"
    unfolding n by simp
  then show "\<exists>v' L'. vim_to_object_rec n h2 p L = Some (v', L') \<and> obj_eq x v' \<and> L \<subseteq> L' \<and>
      L' \<subseteq> L \<union> insert p (cells {})"
    by (auto simp: obj_eq_refl)
qed

lemma new_same:
  "length (tvs h') = length (tvs h) \<Longrightarrow> length (lists h') = length (lists h) \<Longrightarrow>
   length (dicts h') = length (dicts h) \<Longrightarrow> new h h' = {}"
  by (simp add: new_def)

lemma tv_refs_scalar: "\<not> is_container tv \<Longrightarrow> tv_refs tv = []"
  by (cases tv rule: tv_refs.cases) auto

lemma otv_post_scalar:
  fixes h :: "('b::len word, 'f) heap" and v :: "('a::len word, 'f) Object"
  assumes "p < length (tvs h)" "\<not> is_container tv"
    and "rt_ok LENGTH('b) v \<Longrightarrow> to_obj tv = v" and "depth v = Suc 0"
  shows "otv_post v p h (set_tv p tv h)"
proof -
  let ?h1 = "set_tv p tv h"
  have c: "cell ?h1 p = Some tv" using assms(1) by simp
  have n: "new h ?h1 = {}" by (simp add: new_same)
  have "agree (old h - {TvA p}) h ?h1"
    by (rule agreeI) auto
  moreover have "converts ?h1 p v (new h ?h1)"
    unfolding n using c assms(2,3) by (rule converts_scalar)
  ultimately show ?thesis
    using c assms(4) by (simp add: otv_post_def le_heap_def)
qed

lemma otv_array_step:
  fixes h :: "('b::len word, 'f) heap" and items :: "('a::len word, 'f) Object list"
  assumes p: "p < length (tvs h)" and ne: "\<not> has_empty_key (kObjectTypeArray items)"
    and IH: "arr_inv hpos items (length (lists h))
               (set_tv p (VAR_LIST (Some (length (lists h)))) (snd (list_alloc h))) err"
  shows "\<exists>h1. object_to_vim hpos (kObjectTypeArray items) p h err = Some (True, h1, err) \<and>
           otv_post (kObjectTypeArray items) p h h1"
proof -
  define l where "l = length (lists h)"
  define ha where "ha = set_tv p (VAR_LIST (Some l)) (snd (list_alloc h))"
  let ?L0 = "\<lparr>lv_refcount = 0, lv_items = []\<rparr>"
  have sz: "length (tvs ha) = length (tvs h)" "length (lists ha) = Suc (length (lists h))"
    "length (dicts ha) = length (dicts h)"
    by (simp_all add: ha_def)
  have la: "list_at ha l = Some ?L0" by (simp add: ha_def l_def)
  have pa: "cell ha p = Some (VAR_LIST (Some l))" using p by (simp add: ha_def)
  have aga: "agree (old h - {TvA p}) h ha"
    by (rule agreeI) (auto simp: ha_def l_def)
  have li: "lv_items ?L0 = map fst ([] :: ('a word, 'f) item list)" by simp
  have ib0: "items_built ha {} ([] :: ('a word, 'f) item list)" by simp
  from ne have ne': "\<forall>x \<in> set items. \<not> has_empty_key x" by simp
  from IH [unfolded arr_inv_def l_def [symmetric] ha_def [symmetric], rule_format,
      OF la li ib0 _ _ ne' [rule_format]]
  obtain hb where res: "object_to_vim_array hpos items l ha err = Some (True, hb, err)"
    and post: "arr_post items l ?L0 {} ([] :: ('a word, 'f) item list) ha hb"
    by auto
  from post obtain its :: "('a word, 'f) item list" where
    leb: "le_heap ha hb"
    and agb: "agree (old ha - {ListA l}) ha hb"
    and lb: "list_at hb l = Some \<lparr>lv_refcount = 0, lv_items = map fst its\<rparr>"
    and vals: "map (\<lambda>t. fst (snd t)) its = items"
    and ib: "items_built hb (new ha hb) its"
    and dp: "\<forall>x \<in> set items. depth x \<le> length (tvs hb) - length (tvs ha)"
    by (auto simp: arr_post_def)
  have le: "length (tvs h) \<le> length (tvs hb)" "Suc (length (lists h)) \<le> length (lists hb)"
    "length (dicts h) \<le> length (dicts hb)"
    using leb sz by (auto simp: le_heap_def)
  have eq: "object_to_vim hpos (kObjectTypeArray items) p h err = Some (True, list_ref l hb, err)"
    using res by (simp add: case_prod_beta l_def ha_def)
  have newh: "new h hb = insert (ListA l) (new ha hb)"
    using le by (intro addr_eqI) (auto simp: sz l_def)
  let ?h1 = "list_ref l hb"
  let ?L1 = "\<lparr>lv_refcount = 1, lv_items = map fst its\<rparr>"
  have l1: "list_at ?h1 l = Some ?L1" using lb by simp
  have pb: "cell hb p = Some (VAR_LIST (Some l))"
    using agb pa p by (auto simp: agree_def sz)
  then have p1: "cell ?h1 p = Some (VAR_LIST (Some l))" by simp
  have ag1: "agree (new ha hb) hb ?h1"
    by (rule agreeI) (auto simp: sz l_def)
  from items_built_agree [OF ib ag1] have ib1: "items_built ?h1 (new ha hb) its" .
  have pn: "TvA p \<notin> new ha hb" using p by (simp add: sz)
  have new1: "new h ?h1 = insert (ListA l) (new ha hb)"
    using newh by (simp add: new_def)
  have cv: "converts ?h1 p (kObjectTypeArray items) (new h ?h1)"
    using built_array_converts [OF p1 l1 _ ib1 pn] by (simp add: new1 vals)
  have ag: "agree (old h - {TvA p}) h ?h1"
  proof (rule agreeI)
    fix i assume "TvA i \<in> old h - {TvA p}"
    then have "cell ha i = cell h i" "cell hb i = cell ha i"
      using aga agb by (auto simp: agree_def sz)
    then show "cell ?h1 i = cell h i" by simp
  next
    fix i assume i: "ListA i \<in> old h - {TvA p}"
    then have "list_at ha i = list_at h i" "list_at hb i = list_at ha i"
      using aga agb by (auto simp: agree_def sz l_def)
    with i show "list_at ?h1 i = list_at h i" by (simp add: l_def)
  next
    fix i assume "DictA i \<in> old h - {TvA p}"
    then have "dict_at ha i = dict_at h i" "dict_at hb i = dict_at ha i"
      using aga agb by (auto simp: agree_def sz)
    then show "dict_at ?h1 i = dict_at h i" by simp
  qed
  have "depth (kObjectTypeArray items) \<le> Suc (length (tvs ?h1) - length (tvs h))"
    unfolding depth_array_le using dp by (simp add: sz)
  with ag cv p1 le have "otv_post (kObjectTypeArray items) p h ?h1"
    by (simp add: otv_post_def le_heap_def)
  with eq show ?thesis by blast
qed

lemma otv_dict_step:
  fixes h :: "('b::len word, 'f) heap" and items :: "(string \<times> ('a::len word, 'f) Object) list"
  assumes p: "p < length (tvs h)" and ne: "\<not> has_empty_key (kObjectTypeDictionary items)"
    and IH: "dict_inv hpos items (length (dicts h))
               (set_tv p (VAR_DICT (Some (length (dicts h)))) (snd (dict_alloc h))) err"
  shows "\<exists>h1. object_to_vim hpos (kObjectTypeDictionary items) p h err = Some (True, h1, err) \<and>
           otv_post (kObjectTypeDictionary items) p h h1"
proof -
  define d where "d = length (dicts h)"
  define ha where "ha = set_tv p (VAR_DICT (Some d)) (snd (dict_alloc h))"
  let ?D0 = "\<lparr>dv_refcount = 0, dv_lock = 0, dv_hashtab = []\<rparr>"
  have sz: "length (tvs ha) = length (tvs h)" "length (lists ha) = length (lists h)"
    "length (dicts ha) = Suc (length (dicts h))"
    by (simp_all add: ha_def)
  have da: "dict_at ha d = Some ?D0" by (simp add: ha_def d_def)
  have pa: "cell ha p = Some (VAR_DICT (Some d))" using p by (simp add: ha_def)
  have aga: "agree (old h - {TvA p}) h ha"
    by (rule agreeI) (auto simp: ha_def d_def)
  have rep0: "dict_rep (dv_hashtab ?D0) [] ([] :: ('a word, 'f) item list)"
    by (simp add: dict_rep_def)
  have ib0: "items_built ha {} ([] :: ('a word, 'f) item list)" by simp
  from ne have ne': "\<forall>kv \<in> set items. fst kv \<noteq> [] \<and> \<not> has_empty_key (snd kv)"
    by (auto simp: case_prod_beta)
  from IH [unfolded dict_inv_def d_def [symmetric] ha_def [symmetric], rule_format,
      OF da rep0 ib0 _ _ ne' [rule_format]]
  obtain hb where res: "object_to_vim_dictionary hpos items d ha err = Some (True, hb, err)"
    and post: "dict_post items d ?D0 {} ([] :: ('a word, 'f) item list) [] ha hb"
    by auto
  from post obtain its :: "('a word, 'f) item list" and D1 where
    leb: "le_heap ha hb"
    and agb: "agree (old ha - {DictA d}) ha hb"
    and db: "dict_at hb d = Some D1" and rc: "dv_refcount D1 = 0"
    and rep: "dict_rep (dv_hashtab D1) (map (cstr \<circ> fst) items) its"
    and vals: "map (\<lambda>t. fst (snd t)) its = map snd items"
    and ib: "items_built hb (new ha hb) its"
    and dp: "\<forall>x \<in> snd ` set items. depth x \<le> length (tvs hb) - length (tvs ha)"
    by (auto simp: dict_post_def)
  have le: "length (tvs h) \<le> length (tvs hb)" "length (lists h) \<le> length (lists hb)"
    "Suc (length (dicts h)) \<le> length (dicts hb)"
    using leb sz by (auto simp: le_heap_def)
  have eq: "object_to_vim hpos (kObjectTypeDictionary items) p h err =
      Some (True, dict_ref d hb, err)"
    using res by (simp add: case_prod_beta d_def ha_def)
  have newh: "new h hb = insert (DictA d) (new ha hb)"
    using le by (intro addr_eqI) (auto simp: sz d_def)
  let ?h1 = "dict_ref d hb"
  let ?D1 = "D1\<lparr>dv_refcount := dv_refcount D1 + 1\<rparr>"
  have d1: "dict_at ?h1 d = Some ?D1" using db by simp
  have rep1: "dict_rep (dv_hashtab ?D1) (map (cstr \<circ> fst) items) its"
    using rep by simp
  have pb: "cell hb p = Some (VAR_DICT (Some d))"
    using agb pa p by (auto simp: agree_def sz)
  then have p1: "cell ?h1 p = Some (VAR_DICT (Some d))" by simp
  have ag1: "agree (new ha hb) hb ?h1"
    by (rule agreeI) (auto simp: sz d_def)
  from items_built_agree [OF ib ag1] have ib1: "items_built ?h1 (new ha hb) its" .
  have pn: "TvA p \<notin> new ha hb" using p by (simp add: sz)
  have new1: "new h ?h1 = insert (DictA d) (new ha hb)"
    using newh by (simp add: new_def)
  have cv: "converts ?h1 p (kObjectTypeDictionary items) (new h ?h1)"
    using built_dict_converts [OF p1 d1 rep1 vals [symmetric] ib1 pn] by (simp add: new1)
  have ag: "agree (old h - {TvA p}) h ?h1"
  proof (rule agreeI)
    fix i assume "TvA i \<in> old h - {TvA p}"
    then have "cell ha i = cell h i" "cell hb i = cell ha i"
      using aga agb by (auto simp: agree_def sz)
    then show "cell ?h1 i = cell h i" by simp
  next
    fix i assume "ListA i \<in> old h - {TvA p}"
    then have "list_at ha i = list_at h i" "list_at hb i = list_at ha i"
      using aga agb by (auto simp: agree_def sz)
    then show "list_at ?h1 i = list_at h i" by simp
  next
    fix i assume i: "DictA i \<in> old h - {TvA p}"
    then have "dict_at ha i = dict_at h i" "dict_at hb i = dict_at ha i"
      using aga agb by (auto simp: agree_def sz d_def)
    with i show "dict_at ?h1 i = dict_at h i" by (simp add: d_def)
  qed
  have "depth (kObjectTypeDictionary items) \<le> Suc (length (tvs ?h1) - length (tvs h))"
    unfolding depth_dict_le using dp by (auto simp: sz)
  with ag cv p1 le have "otv_post (kObjectTypeDictionary items) p h ?h1"
    by (simp add: otv_post_def le_heap_def)
  with eq show ?thesis by blast
qed

lemma arr_nil: "arr_inv hpos [] l h err"
  by (simp add: arr_inv_def arr_post_def le_heap_def new_same)

lemma dict_nil: "dict_inv hpos [] d h err"
  by (simp add: dict_inv_def dict_post_def le_heap_def new_same)

lemma arr_cons:
  fixes h :: "('b::len word, 'f) heap" and x :: "('a::len word, 'f) Object"
  assumes IH1: "otv_inv hpos x (length (tvs h)) (snd (listitem_alloc h)) err"
    and IH2: "\<And>hb errb.
      object_to_vim hpos x (length (tvs h)) (snd (listitem_alloc h)) err =
        Some (True, hb, errb) \<Longrightarrow>
      arr_inv hpos xs l (list_append l (length (tvs h)) hb) errb"
  shows "arr_inv hpos (x # xs) l h err"
  unfolding arr_inv_def
proof (intro allI impI)
  fix L :: list_T and N0 :: "addr set" and its0 :: "('a word, 'f) item list"
  assume Lh: "list_at h l = Some L" and it0: "lv_items L = map fst its0"
    and ib0: "items_built h N0 its0" and sub: "N0 \<subseteq> old h" and ln: "ListA l \<notin> N0"
    and ne: "\<forall>y \<in> set (x # xs). \<not> has_empty_key y"
  define q where "q = length (tvs h)"
  define ha where "ha = snd (listitem_alloc h)"
  have sz: "length (tvs ha) = Suc (length (tvs h))" "length (lists ha) = length (lists h)"
    "length (dicts ha) = length (dicts h)"
    by (simp_all add: ha_def)
  have ll: "l < length (lists h)" using Lh by (rule list_at_some_less)
  have qn: "TvA q \<notin> N0" using sub by (auto simp: q_def)
  from ne have nex: "\<not> has_empty_key x" and nexs: "\<forall>y \<in> set xs. \<not> has_empty_key y"
    by simp_all
  have qa: "q < length (tvs ha)" by (simp add: sz q_def)
  from IH1 [unfolded otv_inv_def q_def [symmetric] ha_def [symmetric], rule_format, OF qa nex]
  obtain hb where res: "object_to_vim hpos x q ha err = Some (True, hb, err)"
    and post: "otv_post x q ha hb"
    by blast
  from post have leb: "le_heap ha hb" and agb: "agree (old ha - {TvA q}) ha hb"
    and cq: "cell hb q \<noteq> None" and cvq: "converts hb q x (new ha hb)"
    and dq: "depth x \<le> Suc (length (tvs hb) - length (tvs ha))"
    by (auto simp: otv_post_def)
  have le: "Suc (length (tvs h)) \<le> length (tvs hb)" "length (lists h) \<le> length (lists hb)"
    "length (dicts h) \<le> length (dicts hb)"
    using leb sz by (auto simp: le_heap_def)
  have hb_old: "\<And>i. i < length (tvs h) \<Longrightarrow> cell hb i = cell h i"
    "\<And>i. i < length (lists h) \<Longrightarrow> list_at hb i = list_at h i"
    "\<And>i. i < length (dicts h) \<Longrightarrow> dict_at hb i = dict_at h i"
    using agb by (auto simp: agree_def sz q_def ha_def)
  have agN: "agree N0 h hb"
    using sub by (intro agreeI hb_old) auto
  define hc where "hc = list_append l q hb"
  define R where "R = new ha hb"
  define L' where "L' = L\<lparr>lv_items := lv_items L @ [q]\<rparr>"
  define N0' where "N0' = N0 \<union> insert (TvA q) R"
  define its0' where "its0' = its0 @ [(q, x, R)]"
  have szc: "length (tvs hc) = length (tvs hb)" "length (lists hc) = length (lists hb)"
    "length (dicts hc) = length (dicts hb)"
    by (simp_all add: hc_def)
  have Lc: "list_at hc l = Some L'"
    using hb_old(2) [OF ll] Lh by (simp add: hc_def L'_def)
  have itc: "lv_items L' = map fst its0'"
    by (simp add: L'_def its0'_def it0)
  have agc: "agree (insert (TvA q) R) hb hc"
    by (rule agreeI) (use ll in \<open>auto simp: hc_def R_def sz\<close>)
  have agNc: "agree N0 h hc"
  proof (rule agree_trans [OF agN])
    show "agree N0 hb hc"
      by (rule agreeI) (use ln in \<open>auto simp: hc_def\<close>)
  qed
  from items_built_agree [OF ib0 agNc] have ibc0: "items_built hc N0 its0" .
  have cvc: "converts hc q x R"
    using cvq agc unfolding R_def [symmetric] by (rule converts_agree)
  have d1: "TvA q \<notin> R" by (simp add: R_def sz q_def)
  have d2: "R \<inter> N0 = {}"
  proof -
    have "a \<notin> R" if "a \<in> N0" for a
      using that sub by (cases a) (auto simp: R_def sz)
    then show ?thesis by auto
  qed
  have ibc: "items_built hc N0' its0'"
    unfolding N0'_def its0'_def
    using items_built_snoc [OF ibc0 cvc qn d1 d2] .
  have subc: "N0' \<subseteq> old hc"
    using sub le by (intro addr_subsetI) (auto simp: N0'_def R_def szc q_def)
  have lnc: "ListA l \<notin> N0'"
    using ln ll by (simp add: N0'_def R_def sz)
  have eq: "object_to_vim_array hpos (x # xs) l h err = object_to_vim_array hpos xs l hc err"
    using res by (simp add: case_prod_beta q_def ha_def hc_def)
  have "arr_inv hpos xs l hc err"
    using IH2 [of hb err] res by (simp add: q_def ha_def hc_def)
  from this [unfolded arr_inv_def, rule_format, OF Lc itc ibc subc lnc nexs [rule_format]]
  obtain h1 where res2: "object_to_vim_array hpos xs l hc err = Some (True, h1, err)"
    and post2: "arr_post xs l L' N0' its0' hc h1"
    by blast
  from post2 obtain its where le2: "le_heap hc h1"
    and ag2: "agree (old hc - {ListA l}) hc h1"
    and l1: "list_at h1 l = Some (L'\<lparr>lv_items := lv_items L' @ map fst its\<rparr>)"
    and vals: "map (\<lambda>t. fst (snd t)) its = xs"
    and ib1: "items_built h1 (N0' \<union> new hc h1) (its0' @ its)"
    and dp: "\<forall>x \<in> set xs. depth x \<le> length (tvs h1) - length (tvs hc)"
    by (auto simp: arr_post_def)
  have le1: "Suc (length (tvs h)) \<le> length (tvs h1)" "length (lists h) \<le> length (lists h1)"
    "length (dicts h) \<le> length (dicts h1)" "length (tvs hb) \<le> length (tvs h1)"
    "length (lists hb) \<le> length (lists h1)" "length (dicts hb) \<le> length (dicts h1)"
    using le2 le szc by (auto simp: le_heap_def)
  have Neq: "N0' \<union> new hc h1 = N0 \<union> new h h1"
    using le le1 by (intro addr_eqI) (auto simp: N0'_def R_def sz szc q_def)
  have hc_old: "\<And>i. i < length (tvs h) \<Longrightarrow> cell hc i = cell h i"
    "\<And>i. i < length (lists h) \<Longrightarrow> i \<noteq> l \<Longrightarrow> list_at hc i = list_at h i"
    "\<And>i. i < length (dicts h) \<Longrightarrow> dict_at hc i = dict_at h i"
    using hb_old by (auto simp: hc_def)
  have leh: "le_heap h h1" using le1 by (simp add: le_heap_def)
  have ag: "agree (old h - {ListA l}) h h1"
  proof (rule agreeI)
    fix i assume "TvA i \<in> old h - {ListA l}"
    then have i: "i < length (tvs h)" by simp
    with ag2 le have "cell h1 i = cell hc i" by (auto simp: agree_def szc)
    with hc_old(1) [OF i] show "cell h1 i = cell h i" by simp
  next
    fix i assume "ListA i \<in> old h - {ListA l}"
    then have i: "i < length (lists h)" "i \<noteq> l" by auto
    with ag2 le have "list_at h1 i = list_at hc i" by (auto simp: agree_def szc)
    with hc_old(2) [OF i] show "list_at h1 i = list_at h i" by simp
  next
    fix i assume "DictA i \<in> old h - {ListA l}"
    then have i: "i < length (dicts h)" by simp
    with ag2 le have "dict_at h1 i = dict_at hc i" by (auto simp: agree_def szc)
    with hc_old(3) [OF i] show "dict_at h1 i = dict_at h i" by simp
  qed
  let ?its = "(q, x, R) # its"
  have a: "list_at h1 l = Some (L\<lparr>lv_items := lv_items L @ map fst ?its\<rparr>)"
    using l1 by (simp add: L'_def)
  have b: "map (\<lambda>t. fst (snd t)) ?its = x # xs" using vals by simp
  have c: "items_built h1 (N0 \<union> new h h1) (its0 @ ?its)"
    using ib1 unfolding Neq its0'_def by simp
  have d: "\<forall>y \<in> set (x # xs). depth y \<le> length (tvs h1) - length (tvs h)"
    using dp dq le le1 by (auto simp: sz szc)
  have ex: "\<exists>its. list_at h1 l = Some (L\<lparr>lv_items := lv_items L @ map fst its\<rparr>) \<and>
        map (\<lambda>t. fst (snd t)) its = x # xs \<and>
        items_built h1 (N0 \<union> new h h1) (its0 @ its)"
    by (rule exI [of _ ?its]) (intro conjI a b c)
  from leh ag ex d have "arr_post (x # xs) l L N0 its0 h h1"
    by (simp add: arr_post_def)
  with eq res2 show "\<exists>h1. object_to_vim_array hpos (x # xs) l h err = Some (True, h1, err) \<and>
      arr_post (x # xs) l L N0 its0 h h1"
    by simp
qed

lemma dict_rep_snoc:
  assumes "dict_rep ht ks its"
  shows "dict_rep (hash_add hpos ht (k, q)) (ks @ [k]) (its @ [(q, x, R)])"
proof -
  from assms have len: "length ks = length (map fst its)"
    and ll: "length (live ht) = length its"
    and s: "set (live ht) = set (zip ks (map fst its))"
    by (auto simp: dict_rep_def)
  have "zip (ks @ [k]) (map fst its @ [q]) = zip ks (map fst its) @ [(k, q)]"
    using len by simp
  then have "set (zip (ks @ [k]) (map fst (its @ [(q, x, R)]))) =
      insert (k, q) (set (zip ks (map fst its)))"
    by simp
  with len ll s show ?thesis
    by (simp add: dict_rep_def live_hash_add)
qed

lemma dict_cons:
  fixes h :: "('b::len word, 'f) heap" and val :: "('a::len word, 'f) Object"
  assumes IH1: "length key \<noteq> 0 \<Longrightarrow>
      otv_inv hpos val (length (tvs h)) (snd (listitem_alloc h)) err"
    and IH2: "\<And>hb errb. length key \<noteq> 0 \<Longrightarrow>
      object_to_vim hpos val (length (tvs h)) (snd (listitem_alloc h)) err =
        Some (True, hb, errb) \<Longrightarrow>
      dict_inv hpos items d (dict_add hpos d (cstr key, length (tvs h)) hb) errb"
  shows "dict_inv hpos ((key, val) # items) d h err"
  unfolding dict_inv_def
proof (intro allI impI)
  fix D :: dict_T and N0 :: "addr set" and its0 :: "('a word, 'f) item list"
    and ks0 :: "string list"
  assume Dh: "dict_at h d = Some D" and rep0: "dict_rep (dv_hashtab D) ks0 its0"
    and ib0: "items_built h N0 its0" and sub: "N0 \<subseteq> old h" and dn: "DictA d \<notin> N0"
    and ne: "\<forall>kv \<in> set ((key, val) # items). fst kv \<noteq> [] \<and> \<not> has_empty_key (snd kv)"
  have dl: "d < length (dicts h)" using Dh by (rule dict_at_some_less)
  from ne have nonempty: "length key \<noteq> 0" and nev: "\<not> has_empty_key val"
    and nes: "\<forall>kv \<in> set items. fst kv \<noteq> [] \<and> \<not> has_empty_key (snd kv)"
    by simp_all
  define q where "q = length (tvs h)"
  define ha where "ha = snd (listitem_alloc h)"
  have sz: "length (tvs ha) = Suc (length (tvs h))" "length (lists ha) = length (lists h)"
    "length (dicts ha) = length (dicts h)"
    by (simp_all add: ha_def)
  have qn: "TvA q \<notin> N0" using sub by (auto simp: q_def)
  have qa: "q < length (tvs ha)" by (simp add: sz q_def)
  from IH1 [OF nonempty, unfolded otv_inv_def q_def [symmetric] ha_def [symmetric],
      rule_format, OF qa nev]
  obtain hb where res: "object_to_vim hpos val q ha err = Some (True, hb, err)"
    and post: "otv_post val q ha hb"
    by blast
  from post have leb: "le_heap ha hb" and agb: "agree (old ha - {TvA q}) ha hb"
    and cq: "cell hb q \<noteq> None" and cvq: "converts hb q val (new ha hb)"
    and dq: "depth val \<le> Suc (length (tvs hb) - length (tvs ha))"
    by (auto simp: otv_post_def)
  have le: "Suc (length (tvs h)) \<le> length (tvs hb)" "length (lists h) \<le> length (lists hb)"
    "length (dicts h) \<le> length (dicts hb)"
    using leb sz by (auto simp: le_heap_def)
  have hb_old: "\<And>i. i < length (tvs h) \<Longrightarrow> cell hb i = cell h i"
    "\<And>i. i < length (lists h) \<Longrightarrow> list_at hb i = list_at h i"
    "\<And>i. i < length (dicts h) \<Longrightarrow> dict_at hb i = dict_at h i"
    using agb by (auto simp: agree_def sz q_def ha_def)
  have agN: "agree N0 h hb"
    using sub by (intro agreeI hb_old) auto
  define hc where "hc = dict_add hpos d (cstr key, q) hb"
  define R where "R = new ha hb"
  define D' where "D' = D\<lparr>dv_hashtab := hash_add hpos (dv_hashtab D) (cstr key, q)\<rparr>"
  define N0' where "N0' = N0 \<union> insert (TvA q) R"
  define its0' where "its0' = its0 @ [(q, val, R)]"
  define ks0' where "ks0' = ks0 @ [cstr key]"
  have szc: "length (tvs hc) = length (tvs hb)" "length (lists hc) = length (lists hb)"
    "length (dicts hc) = length (dicts hb)"
    by (simp_all add: hc_def)
  have Dc: "dict_at hc d = Some D'"
    using hb_old(3) [OF dl] Dh by (simp add: hc_def D'_def)
  have repc: "dict_rep (dv_hashtab D') ks0' its0'"
    unfolding D'_def ks0'_def its0'_def using dict_rep_snoc [OF rep0] by simp
  have agc: "agree (insert (TvA q) R) hb hc"
    by (rule agreeI) (use dl in \<open>auto simp: hc_def R_def sz\<close>)
  have agNc: "agree N0 h hc"
  proof (rule agree_trans [OF agN])
    show "agree N0 hb hc"
      by (rule agreeI) (use dn in \<open>auto simp: hc_def\<close>)
  qed
  from items_built_agree [OF ib0 agNc] have ibc0: "items_built hc N0 its0" .
  have cvc: "converts hc q val R"
    using cvq agc unfolding R_def [symmetric] by (rule converts_agree)
  have d1: "TvA q \<notin> R" by (simp add: R_def sz q_def)
  have d2: "R \<inter> N0 = {}"
  proof -
    have "a \<notin> R" if "a \<in> N0" for a
      using that sub by (cases a) (auto simp: R_def sz)
    then show ?thesis by auto
  qed
  have ibc: "items_built hc N0' its0'"
    unfolding N0'_def its0'_def
    using items_built_snoc [OF ibc0 cvc qn d1 d2] .
  have subc: "N0' \<subseteq> old hc"
    using sub le by (intro addr_subsetI) (auto simp: N0'_def R_def szc q_def)
  have dnc: "DictA d \<notin> N0'"
    using dn dl by (simp add: N0'_def R_def sz)
  have eq: "object_to_vim_dictionary hpos ((key, val) # items) d h err =
      object_to_vim_dictionary hpos items d hc err"
    using res nonempty by (simp add: case_prod_beta q_def ha_def hc_def)
  have "dict_inv hpos items d hc err"
    using IH2 [OF nonempty, of hb err] res by (simp add: q_def ha_def hc_def)
  from this [unfolded dict_inv_def, rule_format, OF Dc repc ibc subc dnc nes [rule_format]]
  obtain h1 where res2: "object_to_vim_dictionary hpos items d hc err = Some (True, h1, err)"
    and post2: "dict_post items d D' N0' its0' ks0' hc h1"
    by blast
  from post2 obtain its D1 where le2: "le_heap hc h1"
    and ag2: "agree (old hc - {DictA d}) hc h1"
    and d1': "dict_at h1 d = Some D1" and rc: "dv_refcount D1 = dv_refcount D'"
    and lk: "dv_lock D1 = dv_lock D'"
    and rep1: "dict_rep (dv_hashtab D1) (ks0' @ map (cstr \<circ> fst) items) (its0' @ its)"
    and vals: "map (\<lambda>t. fst (snd t)) its = map snd items"
    and ib1: "items_built h1 (N0' \<union> new hc h1) (its0' @ its)"
    and dp: "\<forall>x \<in> snd ` set items. depth x \<le> length (tvs h1) - length (tvs hc)"
    by (auto simp: dict_post_def)
  have le1: "Suc (length (tvs h)) \<le> length (tvs h1)" "length (lists h) \<le> length (lists h1)"
    "length (dicts h) \<le> length (dicts h1)" "length (tvs hb) \<le> length (tvs h1)"
    "length (lists hb) \<le> length (lists h1)" "length (dicts hb) \<le> length (dicts h1)"
    using le2 le szc by (auto simp: le_heap_def)
  have Neq: "N0' \<union> new hc h1 = N0 \<union> new h h1"
    using le le1 by (intro addr_eqI) (auto simp: N0'_def R_def sz szc q_def)
  have hc_old: "\<And>i. i < length (tvs h) \<Longrightarrow> cell hc i = cell h i"
    "\<And>i. i < length (lists h) \<Longrightarrow> list_at hc i = list_at h i"
    "\<And>i. i < length (dicts h) \<Longrightarrow> i \<noteq> d \<Longrightarrow> dict_at hc i = dict_at h i"
    using hb_old by (auto simp: hc_def)
  have leh: "le_heap h h1" using le1 by (simp add: le_heap_def)
  have ag: "agree (old h - {DictA d}) h h1"
  proof (rule agreeI)
    fix i assume "TvA i \<in> old h - {DictA d}"
    then have i: "i < length (tvs h)" by simp
    with ag2 le have "cell h1 i = cell hc i" by (auto simp: agree_def szc)
    with hc_old(1) [OF i] show "cell h1 i = cell h i" by simp
  next
    fix i assume "ListA i \<in> old h - {DictA d}"
    then have i: "i < length (lists h)" by simp
    with ag2 le have "list_at h1 i = list_at hc i" by (auto simp: agree_def szc)
    with hc_old(2) [OF i] show "list_at h1 i = list_at h i" by simp
  next
    fix i assume "DictA i \<in> old h - {DictA d}"
    then have i: "i < length (dicts h)" "i \<noteq> d" by auto
    with ag2 le have "dict_at h1 i = dict_at hc i" by (auto simp: agree_def szc)
    with hc_old(3) [OF i] show "dict_at h1 i = dict_at h i" by simp
  qed
  let ?its = "(q, val, R) # its"
  have a: "dv_refcount D1 = dv_refcount D" "dv_lock D1 = dv_lock D"
    using rc lk by (simp_all add: D'_def)
  have b: "dict_rep (dv_hashtab D1) (ks0 @ map (cstr \<circ> fst) ((key, val) # items))
      (its0 @ ?its)"
    using rep1 by (simp add: ks0'_def its0'_def)
  have c: "map (\<lambda>t. fst (snd t)) ?its = map snd ((key, val) # items)"
    using vals by simp
  have c': "items_built h1 (N0 \<union> new h h1) (its0 @ ?its)"
    using ib1 unfolding Neq its0'_def by simp
  have dd: "\<forall>y \<in> snd ` set ((key, val) # items).
      depth y \<le> length (tvs h1) - length (tvs h)"
    using dp dq le le1 by (auto simp: sz szc)
  have ex: "\<exists>its D1. dict_at h1 d = Some D1 \<and> dv_refcount D1 = dv_refcount D \<and>
        dv_lock D1 = dv_lock D \<and>
        dict_rep (dv_hashtab D1) (ks0 @ map (cstr \<circ> fst) ((key, val) # items))
          (its0 @ its) \<and>
        map (\<lambda>t. fst (snd t)) its = map snd ((key, val) # items) \<and>
        items_built h1 (N0 \<union> new h h1) (its0 @ its)"
    by (rule exI [of _ ?its], rule exI [of _ D1]) (intro conjI d1' a b c c')
  from leh ag ex dd have "dict_post ((key, val) # items) d D N0 its0 ks0 h h1"
    by (simp add: dict_post_def)
  with eq res2 show "\<exists>h1. object_to_vim_dictionary hpos ((key, val) # items) d h err =
      Some (True, h1, err) \<and> dict_post ((key, val) # items) d D N0 its0 ks0 h h1"
    by simp
qed

theorem otv_main:
  fixes h :: "('b::len word, 'f) heap" and v :: "('a::len word, 'f) Object"
    and xs :: "('a word, 'f) Object list" and kvs :: "(string \<times> ('a word, 'f) Object) list"
  shows "otv_inv hpos v p h err" and "arr_inv hpos xs l h err" and "dict_inv hpos kvs d h err"
proof (induction hpos v p h err and hpos xs l h err and hpos kvs d h err
    rule: object_to_vim_object_to_vim_array_object_to_vim_dictionary.induct)
  case (1 hpos tv h err)
  show ?case
    unfolding otv_inv_def by (auto intro!: otv_post_scalar)
next
  case (2 hpos b tv h err)
  show ?case
    unfolding otv_inv_def by (auto intro!: otv_post_scalar)
next
  case (3 hpos i tv h err)
  show ?case
    unfolding otv_inv_def by (auto intro!: otv_post_scalar simp: fits_scast)
next
  case (4 hpos f tv h err)
  show ?case
    unfolding otv_inv_def by (auto intro!: otv_post_scalar)
next
  case (5 hpos s tv h err)
  show ?case
    unfolding otv_inv_def by (auto intro!: otv_post_scalar simp: cstr_id)
next
  case (6 hpos items tv h err)
  have "arr_inv hpos items (length (lists h))
      (set_tv tv (VAR_LIST (Some (length (lists h)))) (snd (list_alloc h))) err"
    using 6 [OF prod.collapse] by simp
  then show ?case
    unfolding otv_inv_def by (intro impI otv_array_step)
next
  case (7 hpos items tv h err)
  have "dict_inv hpos items (length (dicts h))
      (set_tv tv (VAR_DICT (Some (length (dicts h)))) (snd (dict_alloc h))) err"
    using 7 [OF prod.collapse] by simp
  then show ?case
    unfolding otv_inv_def by (intro impI otv_dict_step)
next
  case (8 hpos l h err)
  show ?case by (rule arr_nil)
next
  case (9 hpos item items l h err)
  show ?case
  proof (rule arr_cons)
    show "otv_inv hpos item (length (tvs h)) (snd (listitem_alloc h)) err"
      using 9(1) [OF prod.collapse] by simp
  next
    fix hb errb
    assume "object_to_vim hpos item (length (tvs h)) (snd (listitem_alloc h)) err =
        Some (True, hb, errb)"
    then have "object_to_vim hpos item (fst (listitem_alloc h)) (snd (listitem_alloc h)) err =
        Some (True, hb, errb)"
      by simp
    from 9(2) [OF prod.collapse this refl refl refl]
    show "arr_inv hpos items l (list_append l (length (tvs h)) hb) errb"
      by simp
  qed
next
  case (10 hpos d h err)
  show ?case by (rule dict_nil)
next
  case (11 hpos key val items d h err)
  show ?case
  proof (rule dict_cons)
    assume "length key \<noteq> 0"
    then show "otv_inv hpos val (length (tvs h)) (snd (listitem_alloc h)) err"
      using 11(1) [OF _ prod.collapse] by simp
  next
    fix hb errb
    assume ne: "length key \<noteq> 0"
      and "object_to_vim hpos val (length (tvs h)) (snd (listitem_alloc h)) err =
        Some (True, hb, errb)"
    then have "object_to_vim hpos val (snd (fst (dictitem_alloc (cstr key) h)))
          (snd (dictitem_alloc (cstr key) h)) err = Some (True, hb, errb)"
      by simp
    from 11(2) [OF ne prod.collapse this refl refl refl]
    show "dict_inv hpos items d (dict_add hpos d (cstr key, length (tvs h)) hb) errb"
      by simp
  qed
qed

lemma rt_ok_no_empty_key: "rt_ok bits v \<Longrightarrow> \<not> has_empty_key v"
proof (induction v)
  case (kObjectTypeArray xs)
  then show ?case by auto
next
  case (kObjectTypeDictionary kvs)
  have "\<not> has_empty_key (snd kv)" if "kv \<in> set kvs" for kv
  proof -
    obtain k v where kv: "kv = (k, v)" by (cases kv)
    have "v \<in> Basic_BNFs.snds kv" by (simp add: kv)
    from kObjectTypeDictionary(1) [OF that this] kObjectTypeDictionary(2) that
    show ?thesis by (auto simp: kv)
  qed
  with kObjectTypeDictionary(2) show ?case by fastforce
qed simp_all

section \<open>dict_set_value: releasing the old value, storing the new one\<close>















lemma old_clear [simp]: "old (clear R h) = old h"
  by (simp add: old_def)


















section \<open>vim_to_object on a list that holds itself\<close>

lemma vim_to_object_list_lookup_mono:
  assumes rec: "\<And>obj lookup (v :: ('a::len word, 'f) Object) lk.
      vim_to_object_rec n h obj lookup = Some (v, lk) \<Longrightarrow> lookup \<subseteq> lk"
  shows "vim_to_object_list n h items lookup = Some (xs :: ('a word, 'f) Object list, lk) \<Longrightarrow>
         lookup \<subseteq> lk"
proof (induction items arbitrary: lookup xs)
  case Nil
  then show ?case by simp
next
  case (Cons item items)
  from Cons.prems obtain x :: "('a word, 'f) Object" and lk1 and xs' :: "('a word, 'f) Object list"
    where a: "vim_to_object_rec n h item lookup = Some (x, lk1)"
    and b: "vim_to_object_list n h items lk1 = Some (xs', lk)"
    by (auto split: option.splits)
  from rec [OF a] Cons.IH [OF b] show ?case by blast
qed

lemma vim_to_object_dict_lookup_mono:
  assumes rec: "\<And>obj lookup (v :: ('a::len word, 'f) Object) lk.
      vim_to_object_rec n h obj lookup = Some (v, lk) \<Longrightarrow> lookup \<subseteq> lk"
  shows "vim_to_object_dict n h ht lookup =
           Some (kvs :: (string \<times> ('a word, 'f) Object) list, lk) \<Longrightarrow>
         lookup \<subseteq> lk"
proof (induction ht arbitrary: lookup kvs)
  case Nil
  then show ?case by simp
next
  case (Cons e ht)
  show ?case
  proof (cases e)
    case None
    with Cons show ?thesis by simp
  next
    case (Some kq)
    obtain k q where kq: "kq = (k, q)" by (cases kq)
    from Cons.prems Some kq obtain x :: "('a word, 'f) Object" and lk1
      and kvs' :: "(string \<times> ('a word, 'f) Object) list" where
      a: "vim_to_object_rec n h q lookup = Some (x, lk1)"
      and b: "vim_to_object_dict n h ht lk1 = Some (kvs', lk)"
      by (auto split: option.splits)
    from rec [OF a] Cons.IH [OF b] show ?thesis by blast
  qed
qed

lemma vim_to_object_rec_lookup_mono:
  "vim_to_object_rec n h obj lookup = Some (v :: ('a::len word, 'f) Object, lk) \<Longrightarrow>
   lookup \<subseteq> lk"
proof (induction n arbitrary: obj lookup v lk)
  case 0
  then show ?case by simp
next
  case (Suc n)
  from Suc.prems obtain tv where tv: "cell h obj = Some tv"
    by (cases "cell h obj") auto
  have IH: "\<And>obj lookup (v :: ('a word, 'f) Object) lk.
      vim_to_object_rec n h obj lookup = Some (v, lk) \<Longrightarrow> lookup \<subseteq> lk"
    using Suc.IH by blast
  show ?case
  proof (cases "is_container tv \<and> obj \<in> lookup")
    case True
    with tv Suc.prems show ?thesis by simp
  next
    case False
    show ?thesis
    proof (cases tv)
      case (VAR_LIST lp)
      show ?thesis
      proof (cases lp)
        case None
        with VAR_LIST tv False Suc.prems show ?thesis by auto
      next
        case (Some l)
        with VAR_LIST tv False Suc.prems obtain L :: list_T and xs :: "('a word, 'f) Object list" where
          e: "vim_to_object_list n h (lv_items L) (insert obj lookup) = Some (xs, lk)"
          by (auto split: option.splits)
        have "insert obj lookup \<subseteq> lk"
        proof (rule vim_to_object_list_lookup_mono [where n = n and h = h])
          show "vim_to_object_list n h (lv_items L) (insert obj lookup) = Some (xs, lk)"
            by (rule e)
          show "lookup' \<subseteq> lk'"
            if "vim_to_object_rec n h obj' lookup' = Some (v', lk')"
            for obj' lookup' and v' :: "('a word, 'f) Object" and lk'
            using that by (rule IH)
        qed
        then show ?thesis by blast
      qed
    next
      case (VAR_DICT dp)
      show ?thesis
      proof (cases dp)
        case None
        with VAR_DICT tv False Suc.prems show ?thesis by auto
      next
        case (Some d)
        with VAR_DICT tv False Suc.prems obtain D :: dict_T
          and kvs :: "(string \<times> ('a word, 'f) Object) list" where
          e: "vim_to_object_dict n h (dv_hashtab D) (insert obj lookup) = Some (kvs, lk)"
          by (auto split: option.splits)
        have "insert obj lookup \<subseteq> lk"
        proof (rule vim_to_object_dict_lookup_mono [where n = n and h = h])
          show "vim_to_object_dict n h (dv_hashtab D) (insert obj lookup) = Some (kvs, lk)"
            by (rule e)
          show "lookup' \<subseteq> lk'"
            if "vim_to_object_rec n h obj' lookup' = Some (v', lk')"
            for obj' lookup' and v' :: "('a word, 'f) Object" and lk'
            using that by (rule IH)
        qed
        then show ?thesis by blast
      qed
    qed (use tv False Suc.prems in \<open>auto split: option.splits\<close>)
  qed
qed

lemma vim_to_object_list_length:
  "vim_to_object_list n h items lookup = Some (xs :: ('a::len word, 'f) Object list, lk) \<Longrightarrow>
   length xs = length items"
proof (induction items arbitrary: lookup xs)
  case Nil
  then show ?case by simp
next
  case (Cons item items)
  then show ?case by (auto split: option.splits)
qed

lemma vim_to_object_list_nth:
  "vim_to_object_list n h items lookup = Some (xs :: ('a::len word, 'f) Object list, lk) \<Longrightarrow>
   i < length items \<Longrightarrow>
   \<exists>lki lki'. lookup \<subseteq> lki \<and> vim_to_object_rec n h (items ! i) lki = Some (xs ! i, lki')"
proof (induction items arbitrary: lookup xs i)
  case Nil
  then show ?case by simp
next
  case (Cons item items)
  from Cons.prems(1) obtain x :: "('a word, 'f) Object" and lk1
    and xs' :: "('a word, 'f) Object list" where
    a: "vim_to_object_rec n h item lookup = Some (x, lk1)"
    and b: "vim_to_object_list n h items lk1 = Some (xs', lk)" and c: "xs = x # xs'"
    by (auto split: option.splits)
  show ?case
  proof (cases i)
    case 0
    with a c show ?thesis by auto
  next
    case (Suc j)
    with Cons.prems(2) have "j < length items" by simp
    from Cons.IH [OF b this] obtain lki lki' where
      "lk1 \<subseteq> lki" "vim_to_object_rec n h (items ! j) lki = Some (xs' ! j, lki')"
      by blast
    moreover from vim_to_object_rec_lookup_mono [OF a] have "lookup \<subseteq> lk1" .
    ultimately show ?thesis using Suc c by auto
  qed
qed

lemma vim_to_object_list_nth_scalars:
  "vim_to_object_list n h items lookup = Some (xs :: ('a::len word, 'f) Object list, lk) \<Longrightarrow>
   i < length items \<Longrightarrow>
   \<forall>j < i. \<exists>tv. cell h (items ! j) = Some tv \<and> \<not> is_container tv \<Longrightarrow>
   \<exists>lki'. vim_to_object_rec n h (items ! i) lookup = Some (xs ! i, lki')"
proof (induction items arbitrary: xs i)
  case Nil
  then show ?case by simp
next
  case (Cons item items)
  from Cons.prems(1) obtain x :: "('a word, 'f) Object" and lk1
    and xs' :: "('a word, 'f) Object list" where
    a: "vim_to_object_rec n h item lookup = Some (x, lk1)"
    and b: "vim_to_object_list n h items lk1 = Some (xs', lk)" and c: "xs = x # xs'"
    by (auto split: option.splits)
  show ?case
  proof (cases i)
    case 0
    with a c show ?thesis by auto
  next
    case (Suc j)
    with Cons.prems(2) have j: "j < length items" by simp
    from Cons.prems(3) Suc obtain tv where tv: "cell h item = Some tv" "\<not> is_container tv"
      by fastforce
    from a obtain m where n: "n = Suc m" by (cases n) auto
    from a have a': "vim_to_object_rec (Suc m) h item lookup = Some (x, lk1)"
      unfolding n .
    have "vim_to_object_rec (Suc m) h item lookup =
        Some (to_obj tv :: ('a word, 'f) Object, lookup)"
      using tv by (rule rec_scalar)
    with a' have "Some (x, lk1) = Some (to_obj tv :: ('a word, 'f) Object, lookup)"
      by (simp only:)
    then have "lk1 = lookup" by simp
    with b have b': "vim_to_object_list n h items lookup = Some (xs', lk)" by simp
    have "\<forall>k < j. \<exists>tv. cell h (items ! k) = Some tv \<and> \<not> is_container tv"
      using Cons.prems(3) Suc by fastforce
    from Cons.IH [OF b' j this] show ?thesis using Suc c by auto
  qed
qed

lemma visited_container_Nil:
  "cell h p = Some tv \<Longrightarrow> is_container tv \<Longrightarrow> p \<in> lookup \<Longrightarrow>
   vim_to_object_rec (Suc n) h p lookup = Some (kObjectTypeNil, lookup)"
  by simp

lemma self_slot:
  fixes h :: "('b::len word, 'f) heap"
  assumes q: "cell h q = Some (VAR_LIST (Some l))" and L: "list_at h l = Some L"
    and i: "i < length (lv_items L)" "lv_items L ! i = q"
    and r: "vim_to_object_rec n h q lookup = Some (x :: ('a::len word, 'f) Object, lk)"
  shows "(q \<in> lookup \<longrightarrow> x = kObjectTypeNil) \<and>
         (q \<notin> lookup \<longrightarrow>
            (\<exists>ys. x = kObjectTypeArray ys \<and> length ys = length (lv_items L) \<and>
               ys ! i = kObjectTypeNil))"
proof -
  from r obtain m where n: "n = Suc m" by (cases n) auto
  show ?thesis
  proof (cases "q \<in> lookup")
    case True
    with r q show ?thesis by (simp add: n)
  next
    case False
    with r q L obtain ys :: "('a word, 'f) Object list" where
      ys: "vim_to_object_list m h (lv_items L) (insert q lookup) = Some (ys, lk)"
      and x: "x = kObjectTypeArray ys"
      by (auto simp: n split: option.splits)
    from vim_to_object_list_length [OF ys] have len: "length ys = length (lv_items L)" .
    from vim_to_object_list_nth [OF ys i(1)] i(2) obtain lki lki' where
      sub: "insert q lookup \<subseteq> lki"
      and ri: "vim_to_object_rec m h q lki = Some (ys ! i, lki')"
      by auto
    from ri obtain m' where m: "m = Suc m'" by (cases m) auto
    from sub have "q \<in> lki" by blast
    with ri q have "ys ! i = kObjectTypeNil" by (simp add: m)
    with x len False show ?thesis by blast
  qed
qed

section \<open>Evaluating the operations on the examples\<close>

lemmas heap_ops =
  set_tv_def dict_alloc_def dictitem_alloc_def list_alloc_def listitem_alloc_def
  list_append_def list_ref_def dict_add_def hash_add_def dict_free_def list_free_def
  listitem_free_def dictitem_free_def clear_tv_def items_live_def free_cells_def
  ht_cells_def map_filter_simps cell_refs_def cell_def list_at_def dict_at_def cstr_def
  set_api_error_def first_slot_def no_error_def

section \<open>The claims\<close>

text \<open>
  Claim C1, as stated, fails. \<open>object_to_vim\<close> turns Nil into the host number 0
  and a Bool into the host number 0 or 1, and \<open>vim_to_object\<close> turns a host
  number into an Integer: Nil comes back as the Integer 0 and true as the
  Integer 1, neither of them structurally equal to what went in.
\<close>
theorem round_trip_nil_bool_counterexample:
  "object_to_vim first_slot (kObjectTypeNil :: (64 word, nat) Object) 0 var_heap no_error =
     Some (True, \<lparr>tvs = [Some (VAR_NUMBER 0)], lists = [], dicts = []\<rparr>, no_error) \<and>
   vim_to_object (\<lparr>tvs = [Some (VAR_NUMBER 0)], lists = [], dicts = []\<rparr> :: (32 word, nat) heap) 0 =
     Some (kObjectTypeInt 0 :: (64 word, nat) Object) \<and>
   \<not> obj_eq (kObjectTypeNil :: (64 word, nat) Object) (kObjectTypeInt 0) \<and>
   object_to_vim first_slot (kObjectTypeBool True :: (64 word, nat) Object) 0 var_heap no_error =
     Some (True, \<lparr>tvs = [Some (VAR_NUMBER 1)], lists = [], dicts = []\<rparr>, no_error) \<and>
   vim_to_object (\<lparr>tvs = [Some (VAR_NUMBER 1)], lists = [], dicts = []\<rparr> :: (32 word, nat) heap) 0 =
     Some (kObjectTypeInt 1 :: (64 word, nat) Object) \<and>
   \<not> obj_eq (kObjectTypeBool True :: (64 word, nat) Object) (kObjectTypeInt 1)"
  by (simp add: var_heap_def set_tv_def vim_to_object_def cell_def)

text \<open>
  Claim C1, amended. For every Value that holds no Nil and no Bool, whose
  Integers are in the range of the host number, whose Strings and keys hold no
  NUL byte, and whose dictionaries have unique keys, none of them empty:
  \<open>object_to_vim\<close> succeeds, leaves the Error as it was, and \<open>vim_to_object\<close> of
  the result is a Value structurally equal to the one converted (scalars equal,
  arrays of the same length in the same order, dictionaries with the same keys
  and equal values under each key, in any order). This holds wherever the hash
  table puts its entries (\<open>hpos\<close>) and whatever the heap held before.
\<close>
theorem round_trip:
  fixes h :: "('b::len word, 'f) heap" and v :: "('a::len word, 'f) Object"
  assumes "tv < length (tvs h)" and "rt_ok LENGTH('b) v"
  shows "\<exists>h' v'. object_to_vim hpos v tv h err = Some (True, h', err) \<and>
           vim_to_object h' tv = Some v' \<and> obj_eq v v'"
proof -
  from otv_main(1) [of hpos v tv h err] assms(1) rt_ok_no_empty_key [OF assms(2)]
  obtain h' where res: "object_to_vim hpos v tv h err = Some (True, h', err)"
    and cv: "converts h' tv v (new h h')"
    and dp: "depth v \<le> Suc (length (tvs h') - length (tvs h))"
    by (auto simp: otv_inv_def otv_post_def)
  from dp have dp': "depth v \<le> Suc (length (tvs h'))" by simp
  from cv assms(2) have "\<forall>h2 L n. agree (insert (TvA tv) (new h h')) h' h2 \<longrightarrow>
      L \<inter> insert tv (cells (new h h')) = {} \<longrightarrow> depth v \<le> n \<longrightarrow>
      (\<exists>v' L'. vim_to_object_rec n h2 tv L = Some (v', L') \<and> obj_eq v v' \<and>
         L \<subseteq> L' \<and> L' \<subseteq> L \<union> insert tv (cells (new h h')))"
    unfolding converts_def by simp
  from this [rule_format, of h' "{}" "Suc (length (tvs h'))"] dp'
  obtain v' L' where
    "vim_to_object_rec (Suc (length (tvs h'))) h' tv {} = Some (v', L')" "obj_eq v v'"
    by auto
  then show ?thesis
    using res by (auto simp: vim_to_object_def)
qed

theorem round_trip_witness:
  "\<exists>h' v'. object_to_vim first_slot sample_value 0 var_heap no_error =
       Some (True, h', no_error) \<and>
     vim_to_object h' 0 = Some v' \<and> obj_eq sample_value v'"
proof -
  have 1: "0 < length (tvs var_heap)" by (simp add: var_heap_def)
  have 2: "rt_ok LENGTH(32) sample_value"
    by (simp add: sample_value_def fits_def)
  from round_trip [OF 1 2] show ?thesis .
qed

text \<open>
  Claim C2, as stated, fails. In \<open>cyclic_heap\<close> the list at address 0 holds one
  item, the cell 1, which points to the list itself; the cell 0 is a variable
  that points to the same list. Converting the variable yields an Array whose
  self-referential slot is not Nil but an Array of its own, and only the slot of
  that one is Nil: the lookup table holds the addresses of the \<open>typval_T\<close>s
  met, not of the containers, so the list is entered a second time through its
  item.
\<close>
theorem vim_to_object_cyclic_counterexample:
  "heap_valid cyclic_heap \<and>
   list_at cyclic_heap 0 = Some \<lparr>lv_refcount = 2, lv_items = [1]\<rparr> \<and>
   cell cyclic_heap 1 = Some (VAR_LIST (Some 0)) \<and>
   vim_to_object cyclic_heap 0 =
     Some (kObjectTypeArray [kObjectTypeArray [kObjectTypeNil]] :: (64 word, nat) Object) \<and>
   vim_to_object cyclic_heap 0 \<noteq>
     Some (kObjectTypeArray [kObjectTypeNil] :: (64 word, nat) Object)"
  by (simp add: vim_to_object_def cyclic_heap_def cell_def list_at_def heap_valid_def
      tv_valid_def)

text \<open>
  Claim C2, amended. In a heap without pointers to nothing \<open>vim_to_object\<close>
  returns a Value for every host value, a list that holds itself included. A
  List or Dict \<open>typval_T\<close> whose own address (that of the cell, not of the
  container it points to) is in the lookup table converts to Nil at once, the
  table unchanged. So for a list that holds itself at the slot \<open>i\<close>, whatever
  its other items: the list converts to an Array of as many elements as the
  list has items; the element at \<open>i\<close> is Nil, or an Array of that length whose
  own element at \<open>i\<close> is Nil (one extra unrolling); it is Nil when the
  conversion starts at the self-referential item itself, and it is that Array
  when the conversion starts at another \<open>typval_T\<close> of the list and no item
  before the slot \<open>i\<close> is a container.
\<close>
theorem vim_to_object_cyclic_list:
  fixes h :: "('b::len word, 'f) heap"
  assumes "heap_valid h"
  shows "(\<forall>p. cell h p \<noteq> None \<longrightarrow>
            (\<exists>v :: ('a::len word, 'f) Object. vim_to_object h p = Some v)) \<and>
         (\<forall>p tv lookup n. cell h p = Some tv \<longrightarrow> is_container tv \<longrightarrow> p \<in> lookup \<longrightarrow>
            vim_to_object_rec (Suc n) h p lookup =
              Some (kObjectTypeNil :: ('a::len word, 'f) Object, lookup)) \<and>
         (\<forall>obj l L i.
            cell h obj = Some (VAR_LIST (Some l)) \<longrightarrow> list_at h l = Some L \<longrightarrow>
            i < length (lv_items L) \<longrightarrow> cell h (lv_items L ! i) = Some (VAR_LIST (Some l)) \<longrightarrow>
            (\<exists>xs :: ('a::len word, 'f) Object list.
               vim_to_object h obj = Some (kObjectTypeArray xs) \<and>
               length xs = length (lv_items L) \<and>
               (xs ! i = kObjectTypeNil \<or>
                (\<exists>ys. xs ! i = kObjectTypeArray ys \<and> length ys = length (lv_items L) \<and>
                   ys ! i = kObjectTypeNil)) \<and>
               (obj = lv_items L ! i \<longrightarrow> xs ! i = kObjectTypeNil) \<and>
               (obj \<noteq> lv_items L ! i \<and>
                (\<forall>j < i. \<exists>tv. cell h (lv_items L ! j) = Some tv \<and> \<not> is_container tv) \<longrightarrow>
                  (\<exists>ys. xs ! i = kObjectTypeArray ys \<and> length ys = length (lv_items L) \<and>
                     ys ! i = kObjectTypeNil))))"
proof (intro conjI allI impI)
  fix p
  assume "cell h p \<noteq> None"
  from vim_to_object_total [OF assms this]
  show "\<exists>v :: ('a word, 'f) Object. vim_to_object h p = Some v" .
next
  fix p tv lookup n
  assume "cell h p = Some tv" "is_container tv" "p \<in> lookup"
  then show "vim_to_object_rec (Suc n) h p lookup =
      Some (kObjectTypeNil :: ('a word, 'f) Object, lookup)"
    by simp
next
  fix obj l L i
  assume o: "cell h obj = Some (VAR_LIST (Some l))" and L: "list_at h l = Some L"
    and i: "i < length (lv_items L)" and q: "cell h (lv_items L ! i) = Some (VAR_LIST (Some l))"
  define N where "N = length (tvs h)"
  define qi where "qi = lv_items L ! i"
  from o have "cell h obj \<noteq> None" by simp
  from vim_to_object_total [OF assms this]
  obtain v :: "('a word, 'f) Object" where v: "vim_to_object h obj = Some v" by blast
  then obtain lk where r: "vim_to_object_rec (Suc N) h obj {} = Some (v, lk)"
    by (auto simp: vim_to_object_def N_def)
  with o L obtain xs :: "('a word, 'f) Object list" where
    xs: "vim_to_object_list N h (lv_items L) {obj} = Some (xs, lk)"
    and vx: "v = kObjectTypeArray xs"
    by (auto split: option.splits)
  from vim_to_object_list_length [OF xs] have len: "length xs = length (lv_items L)" .
  from vim_to_object_list_nth [OF xs i] obtain lki lki' where
    sub: "{obj} \<subseteq> lki"
    and ri: "vim_to_object_rec N h qi lki = Some (xs ! i, lki')"
    by (auto simp: qi_def)
  note s = self_slot [OF q [folded qi_def] L i qi_def [symmetric] ri]
  have dis: "xs ! i = kObjectTypeNil \<or>
      (\<exists>ys. xs ! i = kObjectTypeArray ys \<and> length ys = length (lv_items L) \<and>
         ys ! i = kObjectTypeNil)"
    using s by (cases "qi \<in> lki") auto
  have same: "xs ! i = kObjectTypeNil" if "obj = qi"
    using s sub that by auto
  have other: "\<exists>ys. xs ! i = kObjectTypeArray ys \<and> length ys = length (lv_items L) \<and>
         ys ! i = kObjectTypeNil"
    if ne: "obj \<noteq> qi"
      and sc: "\<forall>j < i. \<exists>tv. cell h (lv_items L ! j) = Some tv \<and> \<not> is_container tv"
  proof -
    from vim_to_object_list_nth_scalars [OF xs i sc] obtain lki2 where
      r2: "vim_to_object_rec N h qi {obj} = Some (xs ! i, lki2)"
      by (auto simp: qi_def)
    from self_slot [OF q [folded qi_def] L i qi_def [symmetric] r2] ne
    show ?thesis by auto
  qed
  show "\<exists>xs :: ('a word, 'f) Object list.
               vim_to_object h obj = Some (kObjectTypeArray xs) \<and>
               length xs = length (lv_items L) \<and>
               (xs ! i = kObjectTypeNil \<or>
                (\<exists>ys. xs ! i = kObjectTypeArray ys \<and> length ys = length (lv_items L) \<and>
                   ys ! i = kObjectTypeNil)) \<and>
               (obj = lv_items L ! i \<longrightarrow> xs ! i = kObjectTypeNil) \<and>
               (obj \<noteq> lv_items L ! i \<and>
                (\<forall>j < i. \<exists>tv. cell h (lv_items L ! j) = Some tv \<and> \<not> is_container tv) \<longrightarrow>
                  (\<exists>ys. xs ! i = kObjectTypeArray ys \<and> length ys = length (lv_items L) \<and>
                     ys ! i = kObjectTypeNil))"
    apply (rule exI [of _ xs])
    using v vx len dis same other by (simp add: qi_def)
qed

theorem vim_to_object_cyclic_list_witness:
  "heap_valid two_item_heap \<and>
   (\<exists>v :: (64 word, nat) Object. vim_to_object two_item_heap 1 = Some v) \<and>
   vim_to_object_rec 1 two_item_heap 2 {2} = Some (kObjectTypeNil :: (64 word, nat) Object, {2}) \<and>
   (\<exists>xs ys. vim_to_object two_item_heap 0 = Some (kObjectTypeArray xs :: (64 word, nat) Object) \<and>
      length xs = 2 \<and> xs ! 1 = kObjectTypeArray ys \<and> length ys = 2 \<and>
      ys ! 1 = kObjectTypeNil) \<and>
   (\<exists>xs. vim_to_object two_item_heap 2 = Some (kObjectTypeArray xs :: (64 word, nat) Object) \<and>
      length xs = 2 \<and> xs ! 1 = kObjectTypeNil) \<and>
   vim_to_object two_item_heap 0 =
     Some (kObjectTypeArray [kObjectTypeInt 7, kObjectTypeArray [kObjectTypeInt 7, kObjectTypeNil]]
       :: (64 word, nat) Object) \<and>
   vim_to_object two_item_heap 2 =
     Some (kObjectTypeArray [kObjectTypeInt 7, kObjectTypeNil] :: (64 word, nat) Object)"
proof -
  define L where "L = \<lparr>lv_refcount = 2, lv_items = [1, 2 :: nat]\<rparr>"
  have v: "heap_valid two_item_heap"
    by (simp add: heap_valid_def two_item_heap_def tv_valid_def list_at_def cell_def)
  have c0: "cell two_item_heap 0 = Some (VAR_LIST (Some 0))"
    and c1: "cell two_item_heap 1 = Some (VAR_NUMBER 7)"
    and c2: "cell two_item_heap 2 = Some (VAR_LIST (Some 0))"
    by (simp_all add: two_item_heap_def cell_def)
  have l: "list_at two_item_heap 0 = Some L"
    by (simp add: two_item_heap_def list_at_def L_def)
  have i: "lv_items L = [1, 2]" by (simp add: L_def)
  note t = vim_to_object_cyclic_list [OF v, where ?'a = 64]
  from t have a: "\<forall>p. cell two_item_heap p \<noteq> None \<longrightarrow>
      (\<exists>v :: (64 word, nat) Object. vim_to_object two_item_heap p = Some v)"
    by (rule conjunct1)
  from t have b: "\<forall>p tv lookup n. cell two_item_heap p = Some tv \<longrightarrow> is_container tv \<longrightarrow>
      p \<in> lookup \<longrightarrow>
      vim_to_object_rec (Suc n) two_item_heap p lookup =
        Some (kObjectTypeNil :: (64 word, nat) Object, lookup)"
    by (rule conjunct1 [OF conjunct2])
  from t have c: "\<forall>obj l L i.
            cell two_item_heap obj = Some (VAR_LIST (Some l)) \<longrightarrow>
            list_at two_item_heap l = Some L \<longrightarrow>
            i < length (lv_items L) \<longrightarrow>
            cell two_item_heap (lv_items L ! i) = Some (VAR_LIST (Some l)) \<longrightarrow>
            (\<exists>xs :: (64 word, nat) Object list.
               vim_to_object two_item_heap obj = Some (kObjectTypeArray xs) \<and>
               length xs = length (lv_items L) \<and>
               (xs ! i = kObjectTypeNil \<or>
                (\<exists>ys. xs ! i = kObjectTypeArray ys \<and> length ys = length (lv_items L) \<and>
                   ys ! i = kObjectTypeNil)) \<and>
               (obj = lv_items L ! i \<longrightarrow> xs ! i = kObjectTypeNil) \<and>
               (obj \<noteq> lv_items L ! i \<and>
                (\<forall>j < i. \<exists>tv. cell two_item_heap (lv_items L ! j) = Some tv \<and>
                   \<not> is_container tv) \<longrightarrow>
                  (\<exists>ys. xs ! i = kObjectTypeArray ys \<and> length ys = length (lv_items L) \<and>
                     ys ! i = kObjectTypeNil)))"
    by (rule conjunct2 [OF conjunct2])
  from a c1 have r1: "\<exists>v :: (64 word, nat) Object. vim_to_object two_item_heap 1 = Some v"
    by simp
  from b [rule_format, of 2 "VAR_LIST (Some 0)" "{2}" 0] c2
  have r2: "vim_to_object_rec 1 two_item_heap 2 {2} =
      Some (kObjectTypeNil :: (64 word, nat) Object, {2})"
    by simp
  from c [rule_format, of 0 0 L 1] c0 c1 c2 l
  have r3: "\<exists>xs ys. vim_to_object two_item_heap 0 =
        Some (kObjectTypeArray xs :: (64 word, nat) Object) \<and>
      length xs = 2 \<and> xs ! 1 = kObjectTypeArray ys \<and> length ys = 2 \<and>
      ys ! 1 = kObjectTypeNil"
    by (auto simp: i numeral_2_eq_2)
  from c [rule_format, of 2 0 L 1] c2 l
  have r4: "\<exists>xs. vim_to_object two_item_heap 2 =
        Some (kObjectTypeArray xs :: (64 word, nat) Object) \<and>
      length xs = 2 \<and> xs ! 1 = kObjectTypeNil"
    by (auto simp: i numeral_2_eq_2)
  have r5: "vim_to_object two_item_heap 0 =
     Some (kObjectTypeArray [kObjectTypeInt 7, kObjectTypeArray [kObjectTypeInt 7, kObjectTypeNil]]
       :: (64 word, nat) Object)"
    and r6: "vim_to_object two_item_heap 2 =
     Some (kObjectTypeArray [kObjectTypeInt 7, kObjectTypeNil] :: (64 word, nat) Object)"
    by (simp_all add: vim_to_object_def two_item_heap_def cell_def list_at_def)
  from v r1 r2 r3 r4 r5 r6 show ?thesis by (intro conjI)
qed

text \<open>
  Claim C3, at an input where the code breaks it. The Dictionary
  \<open>{a: {'': 1}, '': 2}\<close> has an entry with an empty key. The value of its first
  pair is itself a Dictionary with an empty key: its conversion into the
  \<open>typval_T\<close> of the new entry (the cell 1) returns false with the error "Empty
  dictionary keys aren't allowed" and the inner dictionary freed, but that
  \<open>typval_T\<close> is left pointing to the dictionary that was freed. The cleanup of
  the outer loop, \<open>dictitem_free\<close> of that entry, releases through this pointer:
  it reads freed memory. So \<open>object_to_vim\<close> has no defined result there, where
  the claim promises the error with everything freed. Where the first pair
  that cannot be converted has the empty key itself, as in
  \<open>{ok: [2], '': 1, later: 3}\<close>, the code does what the claim says: false, the
  error, and the dictionary, the entry and the list built before freed.
\<close>
theorem object_to_vim_nested_empty_key:
  "object_to_vim first_slot (kObjectTypeDictionary [('''', kObjectTypeInt 1)] :: (64 word, nat) Object)
      1 \<lparr>tvs = [Some (VAR_DICT (Some 0)), Some VAR_UNKNOWN], lists = [],
          dicts = [Some \<lparr>dv_refcount = 0, dv_lock = 0, dv_hashtab = []\<rparr>]\<rparr> no_error =
     Some (False,
       \<lparr>tvs = [Some (VAR_DICT (Some 0)), Some (VAR_DICT (Some 1))], lists = [],
        dicts = [Some \<lparr>dv_refcount = 0, dv_lock = 0, dv_hashtab = []\<rparr>, None]\<rparr>,
       \<lparr>err_set = True, err_msg = ''Empty dictionary keys aren't allowed''\<rparr>) \<and>
   dictitem_free 1
       (\<lparr>tvs = [Some (VAR_DICT (Some 0)), Some (VAR_DICT (Some 1))], lists = [],
        dicts = [Some \<lparr>dv_refcount = 0, dv_lock = 0, dv_hashtab = []\<rparr>, None]\<rparr>
          :: (32 word, nat) heap) = None \<and>
   object_to_vim first_slot nested_empty_key_value 0 var_heap no_error = None \<and>
   object_to_vim first_slot empty_key_value 0 var_heap no_error =
     Some (False,
       \<lparr>tvs = [Some (VAR_DICT (Some 0)), None, None], lists = [None], dicts = [None]\<rparr>,
       \<lparr>err_set = True, err_msg = ''Empty dictionary keys aren't allowed''\<rparr>)"
  by (simp add: heap_ops nested_empty_key_value_def empty_key_value_def var_heap_def)

text \<open>
  Claim C4. For a lock-protected host dict that holds the key, \<open>dict_get_value\<close>
  with \<open>pop\<close> set raises the error "Dictionary is locked", still returns the
  converted value stored under the key, and removes nothing: the heap is the
  one it was given, so a second identical call returns the same value again.
\<close>
theorem dict_get_value_pop_locked:
  assumes "heap_valid h" and "dict_at h dict = Some D" and "dv_lock D \<noteq> 0"
    and "hash_find (dv_hashtab D) (cstr key) = Some (hi, di)"
  shows "\<exists>rv :: ('a::len word, 'f) Object.
           vim_to_object h di = Some rv \<and>
           dict_get_value h dict key True err =
             Some (Assigned rv, h, set_api_error ''Dictionary is locked'' err) \<and>
           dict_get_value h dict key True (set_api_error ''Dictionary is locked'' err) =
             Some (Assigned rv, h, set_api_error ''Dictionary is locked'' err)"
proof -
  from hash_find_Some [OF assms(4)] have "Some (cstr key, di) \<in> set (dv_hashtab D)"
    by (metis nth_mem)
  from heap_valid_dict_at [OF assms(1,2) this] have "cell h di \<noteq> None" .
  from vim_to_object_total [OF assms(1) this]
  obtain rv :: "('a word, 'f) Object" where "vim_to_object h di = Some rv" by blast
  with assms show ?thesis
    by (simp add: dict_get_value_def set_api_error_def)
qed

theorem dict_get_value_pop_locked_witness:
  "dict_get_value dict_heap 0 ''k'' True \<lparr>err_set = False, err_msg = ''''\<rparr> =
     Some (Assigned (kObjectTypeInt 7 :: (64 word, nat) Object), dict_heap,
           \<lparr>err_set = True, err_msg = ''Dictionary is locked''\<rparr>) \<and>
   dict_get_value dict_heap 0 ''k'' True \<lparr>err_set = True, err_msg = ''Dictionary is locked''\<rparr> =
     Some (Assigned (kObjectTypeInt 7 :: (64 word, nat) Object), dict_heap,
           \<lparr>err_set = True, err_msg = ''Dictionary is locked''\<rparr>)"
proof -
  have v: "heap_valid dict_heap"
    by (simp add: heap_valid_def dict_heap_def tv_valid_def dict_at_def cell_def)
  have d: "dict_at dict_heap 0 =
      Some \<lparr>dv_refcount = 1, dv_lock = 1, dv_hashtab = [None, Some (''k'', 1)]\<rparr>"
    by (simp add: dict_heap_def dict_at_def)
  have c: "vim_to_object dict_heap 1 = Some (kObjectTypeInt 7 :: (64 word, nat) Object)"
    by (simp add: vim_to_object_def dict_heap_def cell_def)
  from dict_get_value_pop_locked
    [OF v d, of "''k''" 1 1 "\<lparr>err_set = False, err_msg = ''''\<rparr>", where ?'a = 64] c
  show ?thesis
    by (simp add: cstr_def set_api_error_def)
qed

text \<open>
  Claim C5. When \<open>try_end\<close> is called while a keyboard interrupt is pending and an
  exception is in flight, the interrupt takes precedence: the exception is
  discarded, the Error is set to the message "Keyboard interrupt", the interrupt
  flag is cleared, and \<open>try_end\<close> returns true. Neither of the two other branches
  is taken: the message list is left as it was, whether or not it holds a
  message, and the text of the exception does not reach the Error.
\<close>
theorem try_end_interrupt_precedence:
  assumes "got_int g" and "did_throw g"
  shows "try_end sizeof_msg g err =
           Some (True,
                 g\<lparr>trylevel := trylevel g - 1, did_emsg := False, did_throw := False,
                    current_exception := None, got_int := False\<rparr>,
                 err\<lparr>err_msg := ''Keyboard interrupt'', err_set := True\<rparr>)"
  using assms
  by (simp add: try_end_def discard_current_exception_def set_api_error_def)

theorem try_end_interrupt_precedence_witness:
  "try_end 1024
     \<lparr>trylevel = 1, did_emsg = True, got_int = True, did_throw = True,
      msg_list = Some (Some ''E492: Not an editor command''),
      current_exception = Some ''Vim:Interrupt''\<rparr>
     \<lparr>err_set = False, err_msg = ''''\<rparr> =
   Some (True,
     \<lparr>trylevel = 0, did_emsg = False, got_int = False, did_throw = False,
      msg_list = Some (Some ''E492: Not an editor command''),
      current_exception = None\<rparr>,
     \<lparr>err_set = True, err_msg = ''Keyboard interrupt''\<rparr>)"
  using try_end_interrupt_precedence
    [of "\<lparr>trylevel = 1, did_emsg = True, got_int = True, did_throw = True,
          msg_list = Some (Some ''E492: Not an editor command''),
          current_exception = Some ''Vim:Interrupt''\<rparr>"
        1024 "\<lparr>err_set = False, err_msg = ''''\<rparr>"]
  by simp

text \<open>
  Claim C6, at an input where the code breaks it. The value
  \<open>[{'': 1}]\<close>, an Array of a Dictionary with an empty key, cannot be
  converted. Its element is converted into the \<open>typval_T\<close> of a new list item
  (the cell 3): that conversion returns false with the error of the empty key
  and the dictionary freed, but leaves the \<open>typval_T\<close> pointing to the freed
  dictionary; the cleanup of the Array loop, \<open>listitem_free\<close> of that item,
  releases through this pointer and reads freed memory. So \<open>object_to_vim\<close>, and
  with it \<open>dict_set_value\<close> on an unlocked dictionary, has no defined result
  there, where the claim promises the error propagated and the dictionary
  unchanged. Where the value that fails is the Dictionary \<open>{'': 1}\<close> itself,
  \<open>dict_set_value\<close> returns Nil with the error of the empty key and the
  dictionary as it was; and on a lock-protected dictionary it returns Nil with
  the error "Dictionary is locked" and the heap it was given, whatever the
  value.
\<close>
theorem dict_set_value_nested_failure:
  "object_to_vim first_slot (kObjectTypeDictionary [('''', kObjectTypeInt 1)] :: (64 word, nat) Object)
      3 \<lparr>tvs = [Some (VAR_DICT (Some 0)), Some (VAR_NUMBER 7), Some (VAR_LIST (Some 0)),
               Some VAR_UNKNOWN],
          lists = [Some \<lparr>lv_refcount = 0, lv_items = []\<rparr>],
          dicts = [Some \<lparr>dv_refcount = 1, dv_lock = 0, dv_hashtab = [None, Some (''k'', 1)]\<rparr>]\<rparr>
      no_error =
     Some (False,
       \<lparr>tvs = [Some (VAR_DICT (Some 0)), Some (VAR_NUMBER 7), Some (VAR_LIST (Some 0)),
               Some (VAR_DICT (Some 1))],
        lists = [Some \<lparr>lv_refcount = 0, lv_items = []\<rparr>],
        dicts = [Some \<lparr>dv_refcount = 1, dv_lock = 0, dv_hashtab = [None, Some (''k'', 1)]\<rparr>,
                 None]\<rparr>,
       \<lparr>err_set = True, err_msg = ''Empty dictionary keys aren't allowed''\<rparr>) \<and>
   listitem_free 3
       (\<lparr>tvs = [Some (VAR_DICT (Some 0)), Some (VAR_NUMBER 7), Some (VAR_LIST (Some 0)),
               Some (VAR_DICT (Some 1))],
        lists = [Some \<lparr>lv_refcount = 0, lv_items = []\<rparr>],
        dicts = [Some \<lparr>dv_refcount = 1, dv_lock = 0, dv_hashtab = [None, Some (''k'', 1)]\<rparr>,
                 None]\<rparr> :: (32 word, nat) heap) = None \<and>
   object_to_vim first_slot array_empty_key_value 2 (snd (listitem_alloc open_dict_heap))
      no_error = None \<and>
   dict_set_value first_slot open_dict_heap 0 ''k'' array_empty_key_value no_error = None \<and>
   dict_set_value first_slot open_dict_heap 0 ''k''
      (kObjectTypeDictionary [('''', kObjectTypeInt 1)] :: (64 word, nat) Object) no_error =
     Some (kObjectTypeNil,
       \<lparr>tvs = [Some (VAR_DICT (Some 0)), Some (VAR_NUMBER 7), None], lists = [],
        dicts = [Some \<lparr>dv_refcount = 1, dv_lock = 0, dv_hashtab = [None, Some (''k'', 1)]\<rparr>,
                 None]\<rparr>,
       \<lparr>err_set = True, err_msg = ''Empty dictionary keys aren't allowed''\<rparr>) \<and>
   dict_set_value first_slot dict_heap 0 ''k'' array_empty_key_value no_error =
     Some (kObjectTypeNil, dict_heap,
       \<lparr>err_set = True, err_msg = ''Dictionary is locked''\<rparr>)"
  by (simp add: heap_ops dict_set_value_def array_empty_key_value_def open_dict_heap_def
      dict_heap_def)



text \<open>
  Claim C8. \<open>vim_to_object\<close> takes no Error and raises none: for every host value
  (a live cell of a heap without pointers to nothing) it returns a Value, and a
  host value whose tag is none of String, Number, Float, List and Dict converts
  to Nil.
\<close>
theorem vim_to_object_never_fails:
  assumes "heap_valid h" and "cell h obj = Some tv"
  shows "(\<exists>v :: ('a::len word, 'f) Object. vim_to_object h obj = Some v) \<and>
         (\<not> supported_tag tv \<longrightarrow>
            vim_to_object h obj = Some (kObjectTypeNil :: ('a::len word, 'f) Object))"
proof
  from assms(2) have "cell h obj \<noteq> None" by simp
  from vim_to_object_total [OF assms(1) this]
  show "\<exists>v :: ('a word, 'f) Object. vim_to_object h obj = Some v" .
next
  from assms(2)
  show "\<not> supported_tag tv \<longrightarrow>
          vim_to_object h obj = Some (kObjectTypeNil :: ('a word, 'f) Object)"
    by (cases tv) (simp_all add: vim_to_object_def)
qed

theorem vim_to_object_never_fails_witness:
  "(\<exists>v :: (64 word, nat) Object. vim_to_object funcref_heap 0 = Some v) \<and>
   vim_to_object funcref_heap 0 = Some (kObjectTypeNil :: (64 word, nat) Object) \<and>
   vim_to_object funcref_heap 1 = Some (kObjectTypeNil :: (64 word, nat) Object)"
proof -
  have v: "heap_valid funcref_heap"
    by (simp add: heap_valid_def funcref_heap_def tv_valid_def)
  have c0: "cell funcref_heap 0 = Some (VAR_OTHER 3)"
    by (simp add: funcref_heap_def cell_def)
  have c1: "cell funcref_heap 1 = Some VAR_UNKNOWN"
    by (simp add: funcref_heap_def cell_def)
  from vim_to_object_never_fails [OF v c0, where ?'a = 64]
    vim_to_object_never_fails [OF v c1, where ?'a = 64]
  show ?thesis by simp
qed

text \<open>
  Claim C9. A host String whose buffer pointer is null converts to the Value Nil
  (not to an empty String, and there is no error); a host String with a buffer
  converts to a String Value that is a copy of it.
\<close>
theorem vim_to_object_string:
  "(cell h obj = Some (VAR_STRING None) \<longrightarrow>
      vim_to_object h obj = Some (kObjectTypeNil :: ('a::len word, 'f) Object)) \<and>
   (cell h obj = Some (VAR_STRING (Some s)) \<longrightarrow>
      vim_to_object h obj = Some (kObjectTypeString s :: ('a::len word, 'f) Object))"
  by (simp add: vim_to_object_def)

theorem vim_to_object_string_witness:
  "vim_to_object
     (\<lparr>tvs = [Some (VAR_STRING None)], lists = [], dicts = []\<rparr> :: (32 word, nat) heap) 0 =
     Some (kObjectTypeNil :: (64 word, nat) Object) \<and>
   vim_to_object
     (\<lparr>tvs = [Some (VAR_STRING (Some ''abc''))], lists = [], dicts = []\<rparr>
        :: (32 word, nat) heap) 0 =
     Some (kObjectTypeString ''abc'' :: (64 word, nat) Object)"
  using vim_to_object_string
    [of "\<lparr>tvs = [Some (VAR_STRING None)], lists = [], dicts = []\<rparr> :: (32 word, nat) heap"
        0 "''abc''", where ?'a = 64]
    vim_to_object_string
    [of "\<lparr>tvs = [Some (VAR_STRING (Some ''abc''))], lists = [], dicts = []\<rparr>
          :: (32 word, nat) heap" 0 "''abc''", where ?'a = 64]
  by (simp add: cell_def)



end
